theory Spec2Isabelle
  imports Complex_Main "HOL-Library.Multiset"
begin

section \<open>Python values and the string operations the program uses\<close>

text \<open>
  The program handles the values that \<open>json.loads\<close> puts into a parsed document: \<open>None\<close>,
  booleans, integers, floats and strings. A Python \<open>str\<close> is a sequence of code points; a
  \<open>char\<close> here stands for one code point below 256, which is the range the operations
  below are written out for. A float that occurs as a field value is carried as the text
  that Python's \<open>repr\<close> gives it (\<open>5.0\<close> as \<open>''5.0''\<close>): \<open>repr\<close> is injective on floats and
  the program only ever applies \<open>str\<close> to such a value.
\<close>

datatype pyval = PNone | PBool bool | PInt int | PFloat string | PStr string

fun digits10 :: "nat \<Rightarrow> string" where
  "digits10 n =
     (if n < 10 then [char_of (48 + n)]
      else digits10 (n div 10) @ [char_of (48 + n mod 10)])"

declare digits10.simps [simp del]

definition str_int :: "int \<Rightarrow> string" where
  "str_int i = (if i < 0 then CHR ''-'' # digits10 (nat (- i)) else digits10 (nat i))"

text \<open>Python's \<open>str(v)\<close>.\<close>

fun py_str :: "pyval \<Rightarrow> string" where
  "py_str PNone = ''None''"
| "py_str (PBool b) = (if b then ''True'' else ''False'')"
| "py_str (PInt i) = str_int i"
| "py_str (PFloat r) = r"
| "py_str (PStr s) = s"

text \<open>
  \<open>str.isspace\<close> on one code point below 256: TAB, LF, VT, FF, CR, the separators
  0x1C..0x1F, the space, NEL (0x85) and the no-break space (0xA0).
\<close>

definition py_isspace :: "char \<Rightarrow> bool" where
  "py_isspace c =
     (let n = (of_char c :: nat)
      in (9 \<le> n \<and> n \<le> 13) \<or> (28 \<le> n \<and> n \<le> 32) \<or> n = 133 \<or> n = 160)"

text \<open>\<open>s.strip()\<close>: whitespace removed at both ends.\<close>

definition py_strip :: "string \<Rightarrow> string" where
  "py_strip s = rev (dropWhile py_isspace (rev (dropWhile py_isspace s)))"

text \<open>
  \<open>s.lower()\<close> below code point 256: \<open>A..Z\<close> and the upper-case letters 0xC0..0xDE other
  than the multiplication sign 0xD7 move up by 32; everything else stays.
\<close>

definition py_lower_char :: "char \<Rightarrow> char" where
  "py_lower_char c =
     (let n = (of_char c :: nat)
      in if (65 \<le> n \<and> n \<le> 90) \<or> (192 \<le> n \<and> n \<le> 214) \<or> (216 \<le> n \<and> n \<le> 222)
         then char_of (n + 32) else c)"

definition py_lower :: "string \<Rightarrow> string" where
  "py_lower s = map py_lower_char s"

text \<open>\<open>d.get(key, default)\<close> on a key that may be absent.\<close>

definition dict_get :: "'a option \<Rightarrow> 'a \<Rightarrow> 'a" where
  "dict_get v dflt = (case v of None \<Rightarrow> dflt | Some x \<Rightarrow> x)"


section \<open>The data model\<close>

text \<open>
  A structured document is the dictionary the language model's JSON decodes to; every key
  may be absent. The comparator reads the four header fields and the item list of a
  document, and the description and the three numeric-like fields of an item.
\<close>

record line_item =
  description :: "string option"
  qty :: "pyval option"
  unit_price :: "pyval option"
  total :: "pyval option"

record document =
  number :: "pyval option"
  vendor :: "pyval option"
  date :: "pyval option"
  grand_total :: "pyval option"
  items :: "line_item list option"

type_synonym header_check = "string \<times> pyval \<times> pyval \<times> string"


section \<open>Header comparison (\<open>compare_structures\<close>, first loop)\<close>

text \<open>
  \<open>po_struct.get(po_key, "") if po_struct else ""\<close>: on an empty dictionary both branches
  give the empty string, so the reading is \<open>dict_get\<close> with the default \<open>""\<close>.
\<close>

definition header_status :: "pyval \<Rightarrow> pyval \<Rightarrow> string" where
  "header_status po_val inv_val =
     (if py_strip (py_str po_val) \<noteq> [] \<and> py_strip (py_str inv_val) \<noteq> []
         \<and> py_strip (py_str po_val) = py_strip (py_str inv_val)
      then ''Match'' else ''Mismatch'')"

definition header_fields ::
  "(string \<times> (document \<Rightarrow> pyval option) \<times> (document \<Rightarrow> pyval option)) list" where
  "header_fields =
     [(''Document Number'', number, number),
      (''Vendor'', vendor, vendor),
      (''Date'', date, date),
      (''Grand Total'', grand_total, grand_total)]"

definition header_check_of ::
  "document \<Rightarrow> document \<Rightarrow> string \<times> (document \<Rightarrow> pyval option) \<times> (document \<Rightarrow> pyval option)
     \<Rightarrow> header_check" where
  "header_check_of po_struct inv_struct f =
     (case f of (field_label, po_key, inv_key) \<Rightarrow>
        (let po_val = dict_get (po_key po_struct) (PStr []);
             inv_val = dict_get (inv_key inv_struct) (PStr [])
         in (field_label, po_val, inv_val, header_status po_val inv_val)))"

definition compare_headers :: "document \<Rightarrow> document \<Rightarrow> header_check list" where
  "compare_headers po_struct inv_struct = map (header_check_of po_struct inv_struct) header_fields"

section \<open>Floats\<close>

text \<open>
  A similarity score is a Python float. The program divides once (inside the library's
  \<open>ratio\<close>), compares scores with each other and with the threshold, and calls
  \<open>round(score, 2)\<close>. A float is represented by the rational number it is exactly, so that
  comparison is comparison of rationals; \<open>to_double\<close> is IEEE 754 round-to-nearest, ties to
  even, onto binary64 (53 significant bits, least normal exponent -1022), for arguments up
  to the largest finite double.
\<close>

fun floorlog2 :: "nat \<Rightarrow> nat" where
  "floorlog2 n = (if n < 2 then 0 else Suc (floorlog2 (n div 2)))"

fun ceillog2 :: "nat \<Rightarrow> nat" where
  "ceillog2 n = (if n \<le> 1 then 0 else Suc (ceillog2 ((n + 1) div 2)))"

declare floorlog2.simps [simp del] ceillog2.simps [simp del]

definition binary_exponent :: "rat \<Rightarrow> int" where
  "binary_exponent q =
     (if 1 \<le> q then int (floorlog2 (nat \<lfloor>q\<rfloor>)) else - int (ceillog2 (nat \<lceil>1 / q\<rceil>)))"

definition pow2 :: "int \<Rightarrow> rat" where
  "pow2 e = (if 0 \<le> e then 2 ^ nat e else 1 / 2 ^ nat (- e))"

definition round_half_even :: "rat \<Rightarrow> int" where
  "round_half_even r =
     (let f = \<lfloor>r\<rfloor>; d = r - of_int f
      in if d < 1 / 2 then f else if 1 / 2 < d then f + 1 else if even f then f else f + 1)"

definition to_double :: "rat \<Rightarrow> rat" where
  "to_double q =
     (if q = 0 then 0
      else let m = \<bar>q\<bar>; ulp = pow2 (max (binary_exponent m) (- 1022) - 52)
           in sgn q * of_int (round_half_even (m / ulp)) * ulp)"

text \<open>
  \<open>round(x, 2)\<close> on a float: the exact value of \<open>x\<close> is rounded to two decimals, ties to
  even, and the decimal result is converted back to the nearest double.
\<close>

definition py_round2 :: "rat \<Rightarrow> rat" where
  "py_round2 x = to_double (of_int (round_half_even (x * 100)) / 100)"


section \<open>\<open>difflib.SequenceMatcher(None, a, b).ratio()\<close>\<close>

text \<open>
  The similarity of two descriptions is computed by Python's standard library, not by this
  repository. The model follows \<open>difflib\<close> with \<open>isjunk = None\<close> and \<open>autojunk = True\<close>, the
  way \<open>similar\<close> calls it: an element of \<open>b\<close> is popular when \<open>b\<close> has at least 200 elements
  and the element fills more than one per cent of it plus one; popular elements are left
  out of the index \<open>b2j\<close>. There are no junk elements, so the two loops of
  \<open>find_longest_match\<close> that extend a match by junk never run and are left out.
\<close>

definition is_popular :: "string \<Rightarrow> char \<Rightarrow> bool" where
  "is_popular b elt = (200 \<le> length b \<and> length b div 100 + 1 < count_list b elt)"

definition b2j :: "string \<Rightarrow> char \<Rightarrow> nat list" where
  "b2j b elt = (if is_popular b elt then [] else filter (\<lambda>j. b ! j = elt) [0..<length b])"

type_synonym match = "nat \<times> nat \<times> nat"

text \<open>
  The loop over \<open>b2j.get(a[i], nothing)\<close> for one \<open>i\<close>; \<open>j2len\<close> and \<open>newj2len\<close> are the
  dictionaries of the source (\<open>j - 1\<close> may be \<open>-1\<close>, which is never a key).
\<close>

fun flm_inner ::
  "nat \<Rightarrow> nat \<Rightarrow> nat \<Rightarrow> (int \<rightharpoonup> nat) \<Rightarrow> nat list \<Rightarrow> match \<times> (int \<rightharpoonup> nat) \<Rightarrow> match \<times> (int \<rightharpoonup> nat)" where
  "flm_inner i blo bhi j2len [] st = st"
| "flm_inner i blo bhi j2len (j # js) (best, newj2len) =
     (if j < blo then flm_inner i blo bhi j2len js (best, newj2len)
      else if bhi \<le> j then (best, newj2len)
      else
        (let k = dict_get (j2len (int j - 1)) 0 + 1;
             best' = (case best of (besti, bestj, bestsize) \<Rightarrow>
                        if bestsize < k then (i + 1 - k, j + 1 - k, k) else best)
         in flm_inner i blo bhi j2len js (best', newj2len(int j \<mapsto> k))))"

text \<open>The loop \<open>for i in range(alo, ahi)\<close>.\<close>

fun flm_outer ::
  "string \<Rightarrow> string \<Rightarrow> nat \<Rightarrow> nat \<Rightarrow> nat list \<Rightarrow> match \<times> (int \<rightharpoonup> nat) \<Rightarrow> match \<times> (int \<rightharpoonup> nat)" where
  "flm_outer a b blo bhi [] st = st"
| "flm_outer a b blo bhi (i # is) (best, j2len) =
     flm_outer a b blo bhi is (flm_inner i blo bhi j2len (b2j b (a ! i)) (best, Map.empty))"

text \<open>The two loops that extend the best match by equal elements on each side.\<close>

function extend_left :: "string \<Rightarrow> string \<Rightarrow> nat \<Rightarrow> nat \<Rightarrow> match \<Rightarrow> match" where
  "extend_left a b alo blo (besti, bestj, bestsize) =
     (if alo < besti \<and> blo < bestj \<and> a ! (besti - 1) = b ! (bestj - 1)
      then extend_left a b alo blo (besti - 1, bestj - 1, bestsize + 1)
      else (besti, bestj, bestsize))"
  by pat_completeness auto
termination
  by (relation "measure (\<lambda>(a, b, alo, blo, besti, bestj, bestsize). besti)") auto

function extend_right :: "string \<Rightarrow> string \<Rightarrow> nat \<Rightarrow> nat \<Rightarrow> match \<Rightarrow> match" where
  "extend_right a b ahi bhi (besti, bestj, bestsize) =
     (if besti + bestsize < ahi \<and> bestj + bestsize < bhi
         \<and> a ! (besti + bestsize) = b ! (bestj + bestsize)
      then extend_right a b ahi bhi (besti, bestj, bestsize + 1)
      else (besti, bestj, bestsize))"
  by pat_completeness auto
termination
  by (relation "measure (\<lambda>(a, b, ahi, bhi, besti, bestj, bestsize). ahi - (besti + bestsize))") auto

declare extend_left.simps [simp del] extend_right.simps [simp del]

definition find_longest_match :: "string \<Rightarrow> string \<Rightarrow> nat \<Rightarrow> nat \<Rightarrow> nat \<Rightarrow> nat \<Rightarrow> match" where
  "find_longest_match a b alo ahi blo bhi =
     extend_right a b ahi bhi
       (extend_left a b alo blo
          (fst (flm_outer a b blo bhi [alo..<ahi] ((alo, blo, 0), Map.empty))))"

text \<open>
  \<open>get_matching_blocks\<close> takes the longest match of a window and goes on, left and right
  of it, with the windows that remain. That it ends rests on where \<open>find_longest_match\<close>
  puts its result: inside the window it was given. The two predicates state this for the
  dictionary of match lengths and for the best match so far.
\<close>

definition j2len_ok :: "nat \<Rightarrow> nat \<Rightarrow> (int \<rightharpoonup> nat) \<Rightarrow> bool" where
  "j2len_ok n blo m = (\<forall>key v. m key = Some v \<longrightarrow> v \<le> n \<and> int v \<le> key + 1 - int blo)"

definition match_ok :: "nat \<Rightarrow> nat \<Rightarrow> nat \<Rightarrow> nat \<Rightarrow> match \<Rightarrow> bool" where
  "match_ok alo ahi blo bhi best =
     (case best of (bi, bj, bs) \<Rightarrow>
        alo \<le> bi \<and> blo \<le> bj
        \<and> ((bs = 0 \<and> bi = alo \<and> bj = blo) \<or> (bi + bs \<le> ahi \<and> bj + bs \<le> bhi)))"

lemma j2len_ok_empty: "j2len_ok n blo Map.empty"
  by (simp add: j2len_ok_def)

lemma j2len_ok_get:
  assumes "j2len_ok n blo m" and "blo \<le> j"
  shows "dict_get (m (int j - 1)) 0 \<le> n" and "dict_get (m (int j - 1)) 0 + blo \<le> j"
proof -
  show "dict_get (m (int j - 1)) 0 \<le> n"
    using assms by (cases "m (int j - 1)") (auto simp: dict_get_def j2len_ok_def)
  show "dict_get (m (int j - 1)) 0 + blo \<le> j"
  proof (cases "m (int j - 1)")
    case None
    then show ?thesis using assms by (simp add: dict_get_def)
  next
    case (Some v)
    then have "int v \<le> (int j - 1) + 1 - int blo"
      using assms(1) unfolding j2len_ok_def by blast
    then show ?thesis using Some by (simp add: dict_get_def)
  qed
qed

lemma flm_inner_ok:
  assumes "alo \<le> i" and "i < ahi"
    and "j2len_ok (i - alo) blo j2len"
    and "j2len_ok (Suc i - alo) blo new"
    and "match_ok alo ahi blo bhi best"
  shows "match_ok alo ahi blo bhi (fst (flm_inner i blo bhi j2len js (best, new)))
       \<and> j2len_ok (Suc i - alo) blo (snd (flm_inner i blo bhi j2len js (best, new)))"
  using assms(4,5)
proof (induction js arbitrary: best new)
  case Nil
  then show ?case by simp
next
  case (Cons j js)
  show ?case
  proof (cases "j < blo \<or> bhi \<le> j")
    case True
    then show ?thesis using Cons by auto
  next
    case False
    then have jb: "blo \<le> j" "j < bhi" by auto
    define k where "k = dict_get (j2len (int j - 1)) 0 + 1"
    define best' where "best' = (case best of (besti, bestj, bestsize) \<Rightarrow>
                        if bestsize < k then (i + 1 - k, j + 1 - k, k) else best)"
    have k1: "k \<le> Suc i - alo" and k2: "k + blo \<le> Suc j"
      using j2len_ok_get[OF assms(3) jb(1)] assms(1) by (auto simp: k_def)
    have new': "j2len_ok (Suc i - alo) blo (new(int j \<mapsto> k))"
      using Cons.prems(1) k1 k2 by (auto simp: j2len_ok_def)
    obtain bi bj bs where best: "best = (bi, bj, bs)" by (cases best)
    have b': "match_ok alo ahi blo bhi best'"
      using Cons.prems(2) k1 k2 assms(1,2) jb
      by (auto simp: best'_def best match_ok_def)
    have "flm_inner i blo bhi j2len (j # js) (best, new)
          = flm_inner i blo bhi j2len js (best', new(int j \<mapsto> k))"
      using False by (simp add: k_def best'_def best Let_def)
    then show ?thesis using Cons.IH[OF new' b'] by (simp only:)
  qed
qed

lemma flm_outer_ok:
  assumes "alo \<le> i0"
    and "j2len_ok (i0 - alo) blo j2len"
    and "match_ok alo ahi blo bhi best"
  shows "match_ok alo ahi blo bhi (fst (flm_outer a b blo bhi [i0..<ahi] (best, j2len)))"
  using assms
proof (induction "ahi - i0" arbitrary: i0 best j2len)
  case 0
  then show ?case by simp
next
  case (Suc n)
  then have lt: "i0 < ahi" by simp
  obtain best' new where st: "flm_inner i0 blo bhi j2len (b2j b (a ! i0)) (best, Map.empty) = (best', new)"
    by (cases "flm_inner i0 blo bhi j2len (b2j b (a ! i0)) (best, Map.empty)")
  have "match_ok alo ahi blo bhi
          (fst (flm_inner i0 blo bhi j2len (b2j b (a ! i0)) (best, Map.empty)))
        \<and> j2len_ok (Suc i0 - alo) blo
          (snd (flm_inner i0 blo bhi j2len (b2j b (a ! i0)) (best, Map.empty)))"
    by (rule flm_inner_ok[OF Suc.prems(1) lt Suc.prems(2) j2len_ok_empty Suc.prems(3)])
  then have ok: "match_ok alo ahi blo bhi best'" "j2len_ok (Suc i0 - alo) blo new"
    unfolding st by simp_all
  have "n = ahi - Suc i0" using Suc.hyps(2) by simp
  from Suc.hyps(1)[OF this _ ok(2) ok(1)] Suc.prems(1)
  have "match_ok alo ahi blo bhi (fst (flm_outer a b blo bhi [Suc i0..<ahi] (best', new)))"
    by simp
  then show ?case using lt st by (simp add: upt_conv_Cons)
qed

lemma extend_left_ok:
  "match_ok alo ahi blo bhi m \<Longrightarrow> match_ok alo ahi blo bhi (extend_left a b alo blo m)"
proof (induction a b alo blo m rule: extend_left.induct)
  case (1 a b alo blo besti bestj bestsize)
  show ?case
  proof (cases "alo < besti \<and> blo < bestj \<and> a ! (besti - 1) = b ! (bestj - 1)")
    case True
    have "match_ok alo ahi blo bhi (besti - 1, bestj - 1, bestsize + 1)"
      using True "1.prems" by (auto simp: match_ok_def)
    then show ?thesis using "1.IH"[OF True] True by (subst extend_left.simps) simp
  next
    case False
    then show ?thesis using "1.prems" by (subst extend_left.simps) auto
  qed
qed

lemma extend_right_ok:
  "match_ok alo ahi blo bhi m \<Longrightarrow> match_ok alo ahi blo bhi (extend_right a b ahi bhi m)"
proof (induction a b ahi bhi m rule: extend_right.induct)
  case (1 a b ahi bhi besti bestj bestsize)
  show ?case
  proof (cases "besti + bestsize < ahi \<and> bestj + bestsize < bhi
         \<and> a ! (besti + bestsize) = b ! (bestj + bestsize)")
    case True
    have "match_ok alo ahi blo bhi (besti, bestj, bestsize + 1)"
      using True "1.prems" by (auto simp: match_ok_def)
    then show ?thesis using "1.IH"[OF True] True by (subst extend_right.simps) simp
  next
    case False
    then show ?thesis using "1.prems" by (subst extend_right.simps) auto
  qed
qed

lemma find_longest_match_ok:
  "match_ok alo ahi blo bhi (find_longest_match a b alo ahi blo bhi)"
proof -
  have "match_ok alo ahi blo bhi (alo, blo, 0)"
    by (simp add: match_ok_def)
  then have "match_ok alo ahi blo bhi (fst (flm_outer a b blo bhi [alo..<ahi] ((alo, blo, 0), Map.empty)))"
    by (intro flm_outer_ok le_refl j2len_ok_empty)
  then show ?thesis
    unfolding find_longest_match_def by (intro extend_right_ok extend_left_ok)
qed

lemma find_longest_match_bounds:
  assumes "find_longest_match a b alo ahi blo bhi = (i, j, k)" and "k \<noteq> 0"
  shows "alo \<le> i \<and> i + k \<le> ahi \<and> blo \<le> j \<and> j + k \<le> bhi"
  using find_longest_match_ok[of alo ahi blo bhi a b] assms
  by (auto simp: match_ok_def)

text \<open>
  The sum of the sizes of the matching blocks. The source keeps the windows still to do on
  a stack and sorts the blocks afterwards; the sum that \<open>ratio\<close> takes does not depend on
  that order, so the windows are visited by recursion.
\<close>

function matching_size :: "string \<Rightarrow> string \<Rightarrow> nat \<Rightarrow> nat \<Rightarrow> nat \<Rightarrow> nat \<Rightarrow> nat" where
  "matching_size a b alo ahi blo bhi =
     (case find_longest_match a b alo ahi blo bhi of (i, j, k) \<Rightarrow>
        if k = 0 then 0
        else k
          + (if alo < i \<and> blo < j then matching_size a b alo i blo j else 0)
          + (if i + k < ahi \<and> j + k < bhi then matching_size a b (i + k) ahi (j + k) bhi else 0))"
  by pat_completeness auto
termination
proof (relation "measure (\<lambda>(a, b, alo, ahi, blo, bhi). ahi - alo)", goal_cases)
  case 1
  show ?case by simp
next
  case (2 a b alo ahi blo bhi x y xa ya)
  then have "find_longest_match a b alo ahi blo bhi = (x, xa, ya)" by simp
  from find_longest_match_bounds[OF this] 2 have "x - alo < ahi - alo" by arith
  then show ?case by simp
next
  case (3 a b alo ahi blo bhi x y xa ya)
  then have "find_longest_match a b alo ahi blo bhi = (x, xa, ya)" by simp
  from find_longest_match_bounds[OF this] 3 have "ahi - (x + ya) < ahi - alo" by arith
  then show ?case by simp
qed

declare matching_size.simps [simp del]

text \<open>\<open>ratio\<close>: \<open>2.0 * matches / length\<close>, and \<open>1.0\<close> when both sequences are empty.\<close>

definition ratio :: "string \<Rightarrow> string \<Rightarrow> rat" where
  "ratio a b =
     (let matches = matching_size a b 0 (length a) 0 (length b);
          len = length a + length b
      in if len \<noteq> 0 then to_double (2 * of_nat matches / of_nat len) else 1)"

lemma matching_size_le:
  "matching_size a b alo ahi blo bhi \<le> ahi - alo \<and> matching_size a b alo ahi blo bhi \<le> bhi - blo"
proof (induction a b alo ahi blo bhi rule: matching_size.induct)
  case (1 a b alo ahi blo bhi)
  obtain i j k where m: "find_longest_match a b alo ahi blo bhi = (i, j, k)"
    by (cases "find_longest_match a b alo ahi blo bhi")
  show ?case
  proof (cases "k = 0")
    case True
    then show ?thesis using m by (subst (1 2) matching_size.simps) simp
  next
    case False
    note bounds = find_longest_match_bounds[OF m False]
    define l where "l = (if alo < i \<and> blo < j then matching_size a b alo i blo j else 0)"
    define r where "r = (if i + k < ahi \<and> j + k < bhi then matching_size a b (i + k) ahi (j + k) bhi else 0)"
    have l: "l \<le> i - alo \<and> l \<le> j - blo"
      using "1.IH"(1)[OF m[symmetric] refl False] by (auto simp: l_def)
    have r: "r \<le> ahi - (i + k) \<and> r \<le> bhi - (j + k)"
      using "1.IH"(2)[OF m[symmetric] refl False] by (auto simp: r_def)
    have "matching_size a b alo ahi blo bhi = k + l + r"
      using m False by (subst matching_size.simps) (simp add: l_def r_def)
    then show ?thesis using l r bounds by arith
  qed
qed

lemma round_half_even_mono_int: "r \<le> of_int n \<Longrightarrow> round_half_even r \<le> n"
  unfolding round_half_even_def Let_def
  by (auto simp: floor_le_iff le_floor_iff)

lemma round_half_even_nonneg: "0 \<le> r \<Longrightarrow> 0 \<le> round_half_even r"
  unfolding round_half_even_def Let_def by auto

lemma binary_exponent_le0: "q \<le> 1 \<Longrightarrow> binary_exponent q \<le> 0"
  unfolding binary_exponent_def by (auto simp: floorlog2.simps)

lemma to_double_unit:
  assumes "0 \<le> q" and "q \<le> 1"
  shows "0 \<le> to_double q \<and> to_double q \<le> 1"
proof (cases "q = 0")
  case True
  then show ?thesis by (simp add: to_double_def)
next
  case False
  define e where "e = max (binary_exponent q) (- 1022) - 52"
  have e: "e < 0" using binary_exponent_le0[of q] assms by (simp add: e_def)
  define n where "n = nat (- e)"
  have ulp: "pow2 e = 1 / 2 ^ n" using e by (simp add: pow2_def n_def)
  have "to_double q = of_int (round_half_even (q / pow2 e)) * pow2 e"
    using False assms by (simp add: to_double_def Let_def e_def sgn_if)
  then have td: "to_double q = of_int (round_half_even (q * 2 ^ n)) / 2 ^ n"
    by (simp add: ulp)
  have "q * 2 ^ n \<le> of_int (2 ^ n)" using assms by simp
  then have up: "round_half_even (q * 2 ^ n) \<le> 2 ^ n" by (rule round_half_even_mono_int)
  have lo: "0 \<le> round_half_even (q * 2 ^ n)" using assms by (intro round_half_even_nonneg) simp
  have "(of_int (round_half_even (q * 2 ^ n)) :: rat) \<le> of_int (2 ^ n)"
    using up by (simp only: of_int_le_iff)
  then have "to_double q \<le> 1" unfolding td by (simp add: divide_le_eq)
  moreover have "0 \<le> to_double q" unfolding td using lo by simp
  ultimately show ?thesis by simp
qed

lemma ratio_unit: "0 \<le> ratio a b \<and> ratio a b \<le> 1"
proof (cases "length a + length b = 0")
  case True
  then show ?thesis by (simp add: ratio_def)
next
  case False
  define m where "m = matching_size a b 0 (length a) 0 (length b)"
  have "m \<le> length a \<and> m \<le> length b"
    using matching_size_le[of a b 0 "length a" 0 "length b"] by (simp add: m_def)
  then have "2 * m \<le> length a + length b" by simp
  then have "(2 * of_nat m :: rat) \<le> of_nat (length a + length b)"
    by (metis of_nat_le_iff of_nat_mult of_nat_numeral)
  then have q: "(0::rat) \<le> 2 * of_nat m / of_nat (length a + length b)"
    "2 * of_nat m / of_nat (length a + length b) \<le> (1::rat)"
    using False by (simp_all add: divide_le_eq)
  show ?thesis using to_double_unit[OF q] False by (simp add: ratio_def Let_def m_def)
qed


section \<open>Item matching (\<open>similar\<close> and the item loops of \<open>compare_structures\<close>)\<close>

definition similar :: "string \<Rightarrow> string \<Rightarrow> rat" where
  "similar a b = ratio (py_strip (py_lower a)) (py_strip (py_lower b))"

text \<open>One entry of \<open>rows\<close>: the dictionary with its eleven keys.\<close>

record row =
  field :: string
  po_value :: string
  inv_value :: string
  po_qty :: pyval
  inv_qty :: pyval
  po_price :: pyval
  inv_price :: pyval
  po_total :: pyval
  inv_total :: pyval
  status :: string
  match_score :: rat

text \<open>
  The inner loop \<open>for idx, inv_it in enumerate(inv_items)\<close>. Its state is
  \<open>(best_score, best_match, best_idx)\<close>; \<open>inv_used\<close> is the set of the source, which holds
  indices and, when a match is accepted with \<open>best_idx = None\<close>, the value \<open>None\<close>.
\<close>

type_synonym best = "rat \<times> line_item option \<times> nat option"

fun scan_invoice ::
  "line_item \<Rightarrow> nat option set \<Rightarrow> (nat \<times> line_item) list \<Rightarrow> best \<Rightarrow> best" where
  "scan_invoice po_it inv_used [] st = st"
| "scan_invoice po_it inv_used ((idx, inv_it) # rest) (best_score, best_match, best_idx) =
     (if Some idx \<in> inv_used
      then scan_invoice po_it inv_used rest (best_score, best_match, best_idx)
      else
        (let score = similar (dict_get (description po_it) []) (dict_get (description inv_it) [])
         in if best_score < score
            then scan_invoice po_it inv_used rest (score, Some inv_it, Some idx)
            else scan_invoice po_it inv_used rest (best_score, best_match, best_idx)))"

text \<open>
  The row of a PO item. \<open>inv_it\<close> is \<open>None\<close> or the matched invoice item;
  \<open>inv_it.get(key, "") if inv_it else ""\<close> gives \<open>""\<close> for \<open>None\<close> and, for an item, what
  \<open>get\<close> gives (an empty dictionary is falsy and has no key, so both branches agree on it).
\<close>

definition inv_get :: "line_item option \<Rightarrow> (line_item \<Rightarrow> 'a option) \<Rightarrow> 'a \<Rightarrow> 'a" where
  "inv_get inv_it key dflt = (case inv_it of None \<Rightarrow> dflt | Some it \<Rightarrow> dict_get (key it) dflt)"

definition po_row :: "line_item \<Rightarrow> line_item option \<Rightarrow> rat \<Rightarrow> row" where
  "po_row po_it inv_it best_score =
     (let p_qty = dict_get (qty po_it) (PStr []);
          i_qty = inv_get inv_it qty (PStr []);
          p_price = dict_get (unit_price po_it) (PStr []);
          i_price = inv_get inv_it unit_price (PStr []);
          p_total = dict_get (total po_it) (PStr []);
          i_total = inv_get inv_it total (PStr []);
          item_status =
            (if py_str p_qty \<noteq> py_str i_qty \<or> py_str p_price \<noteq> py_str i_price
                \<or> py_str p_total \<noteq> py_str i_total
             then ''Mismatch'' else ''Match'')
      in \<lparr>field = ''Item'',
          po_value = dict_get (description po_it) [],
          inv_value = inv_get inv_it description [],
          po_qty = p_qty, inv_qty = i_qty,
          po_price = p_price, inv_price = i_price,
          po_total = p_total, inv_total = i_total,
          status = item_status,
          match_score = py_round2 best_score\<rparr>)"

text \<open>The body of \<open>for po_it in po_items\<close> for one PO item: the scan, the decision, the row.\<close>

definition match_po_item ::
  "rat \<Rightarrow> line_item list \<Rightarrow> line_item \<Rightarrow> nat option set \<Rightarrow> row \<times> nat option set" where
  "match_po_item item_match_threshold inv_items po_it inv_used =
     (case scan_invoice po_it inv_used (enumerate 0 inv_items) (0, None, None) of
        (best_score, best_match, best_idx) \<Rightarrow>
          if item_match_threshold \<le> best_score
          then (po_row po_it best_match best_score, insert best_idx inv_used)
          else (po_row po_it None best_score, inv_used))"

fun po_loop ::
  "rat \<Rightarrow> line_item list \<Rightarrow> line_item list \<Rightarrow> row list \<times> nat option set
     \<Rightarrow> row list \<times> nat option set" where
  "po_loop item_match_threshold inv_items [] st = st"
| "po_loop item_match_threshold inv_items (po_it # rest) (rows, inv_used) =
     (case match_po_item item_match_threshold inv_items po_it inv_used of
        (r, inv_used') \<Rightarrow> po_loop item_match_threshold inv_items rest (rows @ [r], inv_used'))"

text \<open>The last loop: the invoice items that no PO item claimed.\<close>

definition unmatched_row :: "line_item \<Rightarrow> row" where
  "unmatched_row inv_it =
     \<lparr>field = ''Item (Unmatched Invoice)'',
      po_value = [],
      inv_value = dict_get (description inv_it) [],
      po_qty = PStr [], inv_qty = dict_get (qty inv_it) (PStr []),
      po_price = PStr [], inv_price = dict_get (unit_price inv_it) (PStr []),
      po_total = PStr [], inv_total = dict_get (total inv_it) (PStr []),
      status = ''Mismatch'',
      match_score = 0\<rparr>"

fun unmatched_loop :: "nat option set \<Rightarrow> (nat \<times> line_item) list \<Rightarrow> row list \<Rightarrow> row list" where
  "unmatched_loop inv_used [] rows = rows"
| "unmatched_loop inv_used ((idx, inv_it) # rest) rows =
     unmatched_loop inv_used rest
       (if Some idx \<notin> inv_used then rows @ [unmatched_row inv_it] else rows)"

definition compare_structures ::
  "document \<Rightarrow> document \<Rightarrow> rat \<Rightarrow> header_check list \<times> row list" where
  "compare_structures po_struct inv_struct item_match_threshold =
     (let header_checks = compare_headers po_struct inv_struct;
          po_items = dict_get (items po_struct) [];
          inv_items = dict_get (items inv_struct) []
      in case po_loop item_match_threshold inv_items po_items ([], {}) of
           (rows, inv_used) \<Rightarrow>
             (header_checks, unmatched_loop inv_used (enumerate 0 inv_items) rows))"

text \<open>
  The default threshold is the float \<open>0.7\<close>; the form passes \<open>slider / 100.0\<close> for an integer
  between 50 and 95.
\<close>

definition default_threshold :: rat where
  "default_threshold = to_double (7 / 10)"

definition slider_threshold :: "nat \<Rightarrow> rat" where
  "slider_threshold percent = to_double (of_nat percent / 100)"


section \<open>Structure extraction (\<open>call_gemini_for_structure\<close>)\<close>

text \<open>
  The function reads the module-level \<open>GEMINI_KEY\<close> (the result of \<open>os.getenv\<close>: \<open>None\<close> or
  a string), builds the prompt, calls the language model once and decodes the answer. The
  model's client and \<open>json.loads\<close> are libraries; they are parameters here:
  \<open>generate_content prompt\<close> is \<open>Inr\<close> the text of the response, or \<open>Inl\<close> the message of the
  exception that the call raised. \<open>json_loads s\<close> is \<open>Loaded\<close> the decoded value,
  \<open>JSONDecodeError\<close> when the text is not JSON, or \<open>Raised\<close> the message of any other
  exception (a \<open>RecursionError\<close> on deeply nested text), which the last handler of the
  source reports like a failed call. The second component of the result is the list of the
  prompts handed to the client: the only place where the function reaches the network.
\<close>

datatype 'j loads_result = Loaded 'j | JSONDecodeError | Raised string

definition dquote :: "string \<Rightarrow> string" where
  "dquote s = char_of (34::nat) # s @ [char_of (34::nat)]"

definition newline :: char where
  "newline = char_of (10::nat)"

definition unlines :: "string list \<Rightarrow> string" where
  "unlines ls = concat (map (\<lambda>l. l @ [newline]) ls)"

definition build_prompt :: "string \<Rightarrow> string \<Rightarrow> string" where
  "build_prompt doc_type text =
     unlines
       [[],
        ''You are a reliable document parser. Given the following '' @ doc_type
          @ '' text (may be multi-page, may contain tables),'',
        ''extract the following fields and return only valid JSON (no explanation):'',
        [],
        ''- document_type: '' @ dquote ''Purchase Order'' @ '' or '' @ dquote ''Invoice'',
        ''- number: document number (PO number or Invoice number)'',
        ''- vendor: vendor / supplier name'',
        ''- date: date if present (any common format)'',
        ''- grand_total: grand total amount if present (numeric)'',
        ''- items: list of item objects, each with: description, qty (number), unit_price (number), total (number)'',
        [],
        ''Return result exactly as JSON. Example:'',
        ''{ '' @ dquote ''document_type'' @ '':'' @ dquote ''Purchase Order'' @ '', ''
          @ dquote ''number'' @ '':'' @ dquote ''PO-12345'' @ '', ''
          @ dquote ''vendor'' @ '':'' @ dquote ''ACME Ltd'' @ '','',
        ''  '' @ dquote ''date'' @ '':'' @ dquote ''2024-03-01'' @ '', ''
          @ dquote ''grand_total'' @ '':'' @ dquote ''12345.67'' @ '','',
        ''  '' @ dquote ''items'' @ '':[{'' @ dquote ''description'' @ '':'' @ dquote ''Bolt 10mm''
          @ '','' @ dquote ''qty'' @ '':10,'' @ dquote ''unit_price'' @ '':5.0,''
          @ dquote ''total'' @ '':50.0}, ...] }'',
        ''  '',
        ''Here is the '' @ doc_type @ '' text to analyze:'',
        [],
        dquote (dquote (dquote (take 15000 text)))]
     @ ''    ''"

text \<open>
  \<open>re.search(r"(\{[\s\S]*\})", s)\<close>: the match starts at the first opening brace and, the
  star being greedy, ends at the last closing brace after it; there is no match without
  such a pair.
\<close>

definition brace_block :: "string \<Rightarrow> string option" where
  "brace_block s =
     (let from_open = dropWhile (\<lambda>c. c \<noteq> CHR ''{'') s
      in if from_open = [] then None
         else let inner = rev (dropWhile (\<lambda>c. c \<noteq> CHR ''}'') (rev (tl from_open)))
              in if inner = [] then None else Some (CHR ''{'' # inner))"

definition startswith_brace :: "string \<Rightarrow> bool" where
  "startswith_brace s = (s \<noteq> [] \<and> hd s = CHR ''{'')"

definition endswith_brace :: "string \<Rightarrow> bool" where
  "endswith_brace s = (s \<noteq> [] \<and> last s = CHR ''}'')"

definition call_gemini_for_structure ::
  "string option \<Rightarrow> (string \<Rightarrow> string + string) \<Rightarrow> (string \<Rightarrow> 'j loads_result) \<Rightarrow> string \<Rightarrow> string
     \<Rightarrow> ('j option \<times> string option) \<times> string list" where
  "call_gemini_for_structure gemini_key generate_content json_loads text doc_type =
     (if gemini_key = None \<or> gemini_key = Some []
      then ((None, Some ''No API key configured.''), [])
      else
        (let prompt = build_prompt doc_type text
         in case generate_content prompt of
              Inl e \<Rightarrow> ((None, Some (''Error calling Gemini: '' @ e)), [prompt])
            | Inr response_text \<Rightarrow>
                (let raw = py_strip response_text;
                     json_text =
                       (if \<not> (startswith_brace raw \<and> endswith_brace raw)
                        then (case brace_block raw of Some m \<Rightarrow> m | None \<Rightarrow> raw)
                        else raw)
                 in case json_loads json_text of
                      Loaded parsed \<Rightarrow> ((Some parsed, None), [prompt])
                    | JSONDecodeError \<Rightarrow>
                        ((None, Some (''AI returned invalid JSON. Raw response:'' @ [newline] @ raw)),
                         [prompt])
                    | Raised e \<Rightarrow> ((None, Some (''Error calling Gemini: '' @ e)), [prompt]))))"


section \<open>The comparator as a run over a state\<close>

text \<open>
  The same function once more, with everything a run could leave behind written out as a
  state that one run hands to the next. The state holds the module-level variables of
  \<open>app.py\<close> that are data (\<open>GEMINI_KEY\<close>, \<open>MODEL_NAME\<close>, \<open>threshold\<close>), the two dictionaries
  that the caller passes by reference, and the variables of \<open>compare_structures\<close> that
  live across loop iterations or are assigned under a condition: \<open>rows\<close>, \<open>header_checks\<close>,
  \<open>inv_used\<close>, \<open>best_match\<close>, \<open>best_score\<close> and \<open>best_idx\<close>. Python makes the variables of a
  function anew for every call; letting them outlive the call gives a run more to depend
  on, not less. The remaining variables (\<open>po_val\<close>, \<open>score\<close>, \<open>po_qty\<close> and the like) are
  assigned and read inside one iteration and stay let-bound. Every assignment of the source
  is an update of the state, every read of a variable a read of the state.
\<close>

record py_state =
  g_GEMINI_KEY :: "string option"
  g_MODEL_NAME :: string
  g_threshold :: rat
  o_po_struct :: document
  o_inv_struct :: document
  v_rows :: "row list"
  v_header_checks :: "header_check list"
  v_inv_used :: "nat option set"
  v_best_match :: "line_item option"
  v_best_score :: rat
  v_best_idx :: "nat option"

text \<open>The header loop: \<open>header_checks.append(...)\<close> for each field.\<close>

fun header_loop_st ::
  "(string \<times> (document \<Rightarrow> pyval option) \<times> (document \<Rightarrow> pyval option)) list
     \<Rightarrow> py_state \<Rightarrow> py_state" where
  "header_loop_st [] s = s"
| "header_loop_st (f # rest) s =
     header_loop_st rest
       (s\<lparr>v_header_checks :=
            v_header_checks s @ [header_check_of (o_po_struct s) (o_inv_struct s) f]\<rparr>)"

text \<open>The inner loop over the invoice items.\<close>

fun scan_invoice_st :: "line_item \<Rightarrow> (nat \<times> line_item) list \<Rightarrow> py_state \<Rightarrow> py_state" where
  "scan_invoice_st po_it [] s = s"
| "scan_invoice_st po_it ((idx, inv_it) # rest) s =
     (if Some idx \<in> v_inv_used s then scan_invoice_st po_it rest s
      else
        (let score = similar (dict_get (description po_it) []) (dict_get (description inv_it) [])
         in if v_best_score s < score
            then scan_invoice_st po_it rest
                   (s\<lparr>v_best_score := score, v_best_match := Some inv_it, v_best_idx := Some idx\<rparr>)
            else scan_invoice_st po_it rest s))"

text \<open>The body of the loop over the PO items.\<close>

definition po_item_st :: "rat \<Rightarrow> line_item list \<Rightarrow> line_item \<Rightarrow> py_state \<Rightarrow> py_state" where
  "po_item_st item_match_threshold inv_items po_it s =
     (let s1 = s\<lparr>v_best_match := None\<rparr>;
          s2 = s1\<lparr>v_best_score := 0\<rparr>;
          s3 = s2\<lparr>v_best_idx := None\<rparr>;
          s4 = scan_invoice_st po_it (enumerate 0 inv_items) s3
      in if item_match_threshold \<le> v_best_score s4
         then
           (let s5 = s4\<lparr>v_inv_used := insert (v_best_idx s4) (v_inv_used s4)\<rparr>
            in s5\<lparr>v_rows := v_rows s5 @ [po_row po_it (v_best_match s5) (v_best_score s5)]\<rparr>)
         else s4\<lparr>v_rows := v_rows s4 @ [po_row po_it None (v_best_score s4)]\<rparr>)"

fun po_loop_st :: "rat \<Rightarrow> line_item list \<Rightarrow> line_item list \<Rightarrow> py_state \<Rightarrow> py_state" where
  "po_loop_st item_match_threshold inv_items [] s = s"
| "po_loop_st item_match_threshold inv_items (po_it # rest) s =
     po_loop_st item_match_threshold inv_items rest
       (po_item_st item_match_threshold inv_items po_it s)"

text \<open>The last loop.\<close>

fun unmatched_loop_st :: "(nat \<times> line_item) list \<Rightarrow> py_state \<Rightarrow> py_state" where
  "unmatched_loop_st [] s = s"
| "unmatched_loop_st ((idx, inv_it) # rest) s =
     unmatched_loop_st rest
       (if Some idx \<notin> v_inv_used s then s\<lparr>v_rows := v_rows s @ [unmatched_row inv_it]\<rparr> else s)"

text \<open>
  A run: the statements of \<open>compare_structures\<close> in their order. The result is the pair the
  function returns and the state the run leaves.
\<close>

definition compare_structures_st ::
  "rat \<Rightarrow> py_state \<Rightarrow> (header_check list \<times> row list) \<times> py_state" where
  "compare_structures_st item_match_threshold s =
     (let s1 = s\<lparr>v_rows := []\<rparr>;
          s2 = s1\<lparr>v_header_checks := []\<rparr>;
          s3 = header_loop_st header_fields s2;
          po_items = dict_get (items (o_po_struct s3)) [];
          inv_items = dict_get (items (o_inv_struct s3)) [];
          s4 = s3\<lparr>v_inv_used := {}\<rparr>;
          s5 = po_loop_st item_match_threshold inv_items po_items s4;
          s6 = unmatched_loop_st (enumerate 0 inv_items) s5
      in ((v_header_checks s6, v_rows s6), s6))"

text \<open>Two states agree on what a run does not own: the module-level variables and the two records.\<close>

definition same_outside :: "py_state \<Rightarrow> py_state \<Rightarrow> bool" where
  "same_outside s s' =
     (g_GEMINI_KEY s' = g_GEMINI_KEY s \<and> g_MODEL_NAME s' = g_MODEL_NAME s
      \<and> g_threshold s' = g_threshold s
      \<and> o_po_struct s' = o_po_struct s \<and> o_inv_struct s' = o_inv_struct s)"


section \<open>Reading a run of the item loop\<close>

text \<open>
  The claims speak of the score of a PO item against an invoice item, of the invoice
  items not yet claimed when a PO item is processed, and of the invoice item a PO item
  claims. These are read off the loops above: nothing here is computed differently.
\<close>

definition items_of :: "document \<Rightarrow> line_item list" where
  "items_of d = dict_get (items d) []"

definition score_of :: "line_item \<Rightarrow> line_item \<Rightarrow> rat" where
  "score_of po_it inv_it =
     similar (dict_get (description po_it) []) (dict_get (description inv_it) [])"

text \<open>The result of the inner loop for a PO item, started as the source starts it.\<close>

definition best_of :: "line_item list \<Rightarrow> line_item \<Rightarrow> nat option set \<Rightarrow> best" where
  "best_of inv_items po_it inv_used =
     scan_invoice po_it inv_used (enumerate 0 inv_items) (0, None, None)"

text \<open>\<open>inv_used\<close> when the PO item number \<open>k\<close> (from 0) is reached.\<close>

definition used_before :: "rat \<Rightarrow> line_item list \<Rightarrow> line_item list \<Rightarrow> nat \<Rightarrow> nat option set" where
  "used_before t inv_items po_items k = snd (po_loop t inv_items (take k po_items) ([], {}))"

text \<open>The best score found for PO item \<open>k\<close>, and the index it claims, if any.\<close>

definition best_score_at :: "rat \<Rightarrow> line_item list \<Rightarrow> line_item list \<Rightarrow> nat \<Rightarrow> rat" where
  "best_score_at t inv_items po_items k =
     fst (best_of inv_items (po_items ! k) (used_before t inv_items po_items k))"

definition claimed_by :: "rat \<Rightarrow> line_item list \<Rightarrow> line_item list \<Rightarrow> nat \<Rightarrow> nat option" where
  "claimed_by t inv_items po_items k =
     (case best_of inv_items (po_items ! k) (used_before t inv_items po_items k) of
        (best_score, best_match, best_idx) \<Rightarrow> if t \<le> best_score then best_idx else None)"

text \<open>The indices of the invoice items that a set \<open>inv_used\<close> leaves unclaimed, in order.\<close>

definition unclaimed :: "line_item list \<Rightarrow> nat option set \<Rightarrow> nat list" where
  "unclaimed inv_items inv_used = filter (\<lambda>idx. Some idx \<notin> inv_used) [0..<length inv_items]"

definition item_rows :: "document \<Rightarrow> document \<Rightarrow> rat \<Rightarrow> row list" where
  "item_rows po_struct inv_struct t = snd (compare_structures po_struct inv_struct t)"

text \<open>
  What it means for an item row to show an invoice item: the four invoice-side entries of
  the row are the description, quantity, unit price and total of that item, read as the
  source reads them. A row shows no invoice item when the four entries are empty.
\<close>

definition carries_item :: "row \<Rightarrow> line_item \<Rightarrow> bool" where
  "carries_item r inv_it =
     (inv_value r = dict_get (description inv_it) []
      \<and> inv_qty r = dict_get (qty inv_it) (PStr [])
      \<and> inv_price r = dict_get (unit_price inv_it) (PStr [])
      \<and> inv_total r = dict_get (total inv_it) (PStr []))"

definition carries_no_item :: "row \<Rightarrow> bool" where
  "carries_no_item r =
     (inv_value r = [] \<and> inv_qty r = PStr [] \<and> inv_price r = PStr [] \<and> inv_total r = PStr [])"

text \<open>
  For every item row of a report, in order, the index of the invoice item that the row was
  built from: for the row of a PO item the index that PO item claimed, if any, and for a
  row of the last loop the index that loop was at.
\<close>

definition row_sources :: "rat \<Rightarrow> line_item list \<Rightarrow> line_item list \<Rightarrow> nat option list" where
  "row_sources t inv_items po_items =
     map (claimed_by t inv_items po_items) [0..<length po_items]
     @ map Some (unclaimed inv_items (used_before t inv_items po_items (length po_items)))"


section \<open>Example documents\<close>

definition ex_po :: document where
  "ex_po = \<lparr>number = Some (PStr ''PO-12345 ''), vendor = Some (PStr ''ACME Ltd''), date = None,
            grand_total = Some (PStr ''1200.00''), items = None\<rparr>"

definition ex_inv :: document where
  "ex_inv = \<lparr>number = Some (PStr ''PO-12345''), vendor = Some (PStr ''Acme Ltd''), date = None,
             grand_total = Some (PStr ''1200''), items = None\<rparr>"

text \<open>Line items that differ in their descriptions only, and documents made of them.\<close>

definition ex_item :: "string \<Rightarrow> line_item" where
  "ex_item d = \<lparr>description = Some d, qty = Some (PInt 10), unit_price = Some (PFloat ''5.0''),
                total = Some (PFloat ''50.0'')\<rparr>"

definition ex_doc :: "line_item list \<Rightarrow> document" where
  "ex_doc its = \<lparr>number = Some (PStr ''PO-12345''), vendor = Some (PStr ''ACME Ltd''),
                 date = Some (PStr ''2024-03-01''), grand_total = Some (PStr ''1200.00''),
                 items = Some its\<rparr>"

text \<open>
  A purchase order and an invoice with the situations of the specification: a description
  that differs in punctuation, case and trailing space, a PO item without a counterpart,
  an invoice item without a counterpart, and a pair whose unit prices are the strings
  \<open>"5.00"\<close> and \<open>"5.0"\<close>.
\<close>

definition ex_po_items :: "line_item list" where
  "ex_po_items =
     [ex_item ''Bolt 10mm'',
      ex_item ''Steel Rod'',
      \<lparr>description = Some ''Hex Nut M8'', qty = Some (PInt 4), unit_price = Some (PStr ''5.00''),
        total = Some (PStr ''20.00'')\<rparr>]"

definition ex_inv_items :: "line_item list" where
  "ex_inv_items =
     [ex_item ''Shipping Fee'',
      ex_item ''Bolt-10mm '',
      \<lparr>description = Some ''HEX NUT m8'', qty = Some (PInt 4), unit_price = Some (PStr ''5.0''),
        total = Some (PStr ''20.00'')\<rparr>]"

text \<open>A line item that has a description and nothing else.\<close>

definition bare_item :: "string \<Rightarrow> line_item" where
  "bare_item d = \<lparr>description = Some d, qty = None, unit_price = None, total = None\<rparr>"

text \<open>Two PO items that compete for one invoice item.\<close>

definition bolt_po_items :: "line_item list" where
  "bolt_po_items = [ex_item ''Bolt 10mm'', ex_item ''Bolt 12mm'']"

definition bolt_inv_items :: "line_item list" where
  "bolt_inv_items = [ex_item ''Bolt 12mm'']"

text \<open>
  A PO item that scores the same against two invoice items, and a second PO item that
  matches only one of them; the invoice list in both orders.
\<close>

definition tie_po_items :: "line_item list" where
  "tie_po_items = [ex_item ''Bolt'', ex_item ''Bolt M8'']"

definition tie_inv_items :: "line_item list" where
  "tie_inv_items = [ex_item ''Bolt M8'', ex_item ''A4 Bolt'']"

definition tie_inv_items_permuted :: "line_item list" where
  "tie_inv_items_permuted = [ex_item ''A4 Bolt'', ex_item ''Bolt M8'']"

text \<open>
  Two states with the example records: one in which nothing has run, and one that an
  earlier run of some other comparison has left full (rows, header checks, every invoice
  index in \<open>inv_used\<close>, a best score of 1).
\<close>

definition ex_fresh_state :: py_state where
  "ex_fresh_state =
     \<lparr>g_GEMINI_KEY = None, g_MODEL_NAME = ''gemini-2.5-flash'', g_threshold = default_threshold,
      o_po_struct = ex_doc ex_po_items, o_inv_struct = ex_doc ex_inv_items,
      v_rows = [], v_header_checks = [], v_inv_used = {},
      v_best_match = None, v_best_score = 0, v_best_idx = None\<rparr>"

definition ex_used_state :: py_state where
  "ex_used_state =
     \<lparr>g_GEMINI_KEY = None, g_MODEL_NAME = ''gemini-2.5-flash'', g_threshold = default_threshold,
      o_po_struct = ex_doc ex_po_items, o_inv_struct = ex_doc ex_inv_items,
      v_rows = [unmatched_row (bare_item ''Washer'')],
      v_header_checks = [(''Vendor'', PStr ''ACME Ltd'', PStr ''ACME Ltd'', ''Match'')],
      v_inv_used = {Some 0, Some 1, Some 2, None},
      v_best_match = Some (bare_item ''Washer''), v_best_score = 1, v_best_idx = Some 0\<rparr>"


section \<open>Shared facts about the comparator\<close>

lemma fst_compare_structures:
  "fst (compare_structures po_struct inv_struct t) = compare_headers po_struct inv_struct"
  by (simp add: compare_structures_def Let_def split: prod.split)

lemma header_status_Match:
  "header_status a b = ''Match'' \<longleftrightarrow>
     py_strip (py_str a) \<noteq> [] \<and> py_strip (py_str b) \<noteq> [] \<and> py_strip (py_str a) = py_strip (py_str b)"
  by (simp add: header_status_def)

lemma header_status_cases:
  "header_status a b \<noteq> ''Match'' \<longleftrightarrow> header_status a b = ''Mismatch''"
  by (simp add: header_status_def)

lemma py_strip_Nil: "py_strip [] = []"
  by (simp add: py_strip_def)

lemma header_status_missing:
  "header_status (PStr []) b = ''Mismatch''" "header_status a (PStr []) = ''Mismatch''"
  by (simp_all add: header_status_def py_strip_Nil)

lemma strip_1200: "py_strip ''1200.00'' \<noteq> py_strip ''1200''"
  by (simp add: py_strip_def py_isspace_def)

lemma compare_headers_unfold:
  "compare_headers po_struct inv_struct =
     [(''Document Number'', dict_get (number po_struct) (PStr []), dict_get (number inv_struct) (PStr []),
         header_status (dict_get (number po_struct) (PStr [])) (dict_get (number inv_struct) (PStr []))),
      (''Vendor'', dict_get (vendor po_struct) (PStr []), dict_get (vendor inv_struct) (PStr []),
         header_status (dict_get (vendor po_struct) (PStr [])) (dict_get (vendor inv_struct) (PStr []))),
      (''Date'', dict_get (date po_struct) (PStr []), dict_get (date inv_struct) (PStr []),
         header_status (dict_get (date po_struct) (PStr [])) (dict_get (date inv_struct) (PStr []))),
      (''Grand Total'', dict_get (grand_total po_struct) (PStr []), dict_get (grand_total inv_struct) (PStr []),
         header_status (dict_get (grand_total po_struct) (PStr [])) (dict_get (grand_total inv_struct) (PStr [])))]"
  by (simp add: compare_headers_def header_fields_def header_check_of_def Let_def)

lemma similar_unit: "0 \<le> similar a b \<and> similar a b \<le> 1"
  unfolding similar_def by (rule ratio_unit)

lemma score_of_unit: "0 \<le> score_of p i \<and> score_of p i \<le> 1"
  unfolding score_of_def by (rule similar_unit)

lemma scan_invoice_result:
  assumes "scan_invoice po used xs (s0, m0, i0) = (s, m, i)"
  shows "s0 \<le> s
    \<and> (\<forall>(idx, it) \<in> set xs. Some idx \<notin> used \<longrightarrow> score_of po it \<le> s)
    \<and> ((s, m, i) = (s0, m0, i0)
        \<or> (s0 < s \<and> (\<exists>pre idx it post. xs = pre @ (idx, it) # post \<and> Some idx \<notin> used
              \<and> score_of po it = s \<and> m = Some it \<and> i = Some idx
              \<and> (\<forall>(idx', it') \<in> set pre. Some idx' \<notin> used \<longrightarrow> score_of po it' < s))))"
  using assms
proof (induction xs arbitrary: s0 m0 i0)
  case Nil
  then show ?case by simp
next
  case (Cons x xs)
  obtain idx it where x: "x = (idx, it)" by (cases x)
  show ?case
  proof (cases "Some idx \<in> used")
    case True
    then have "scan_invoice po used xs (s0, m0, i0) = (s, m, i)"
      using Cons.prems x by simp
    from Cons.IH[OF this] show ?thesis
      using True x
      apply (elim conjE disjE exE)
       apply simp
      apply (intro conjI)
        apply simp
       apply simp
      apply (rule disjI2)
      subgoal for pre idx' it' post
        apply (intro conjI)
         apply simp
        apply (rule exI[of _ "(idx, it) # pre"], rule exI[of _ idx'], rule exI[of _ it'], rule exI[of _ post])
        apply simp
        done
      done
  next
    case False
    define sc where "sc = score_of po it"
    show ?thesis
    proof (cases "s0 < sc")
      case True
      then have "scan_invoice po used xs (sc, Some it, Some idx) = (s, m, i)"
        using Cons.prems x False by (simp add: sc_def score_of_def Let_def)
      from Cons.IH[OF this] show ?thesis
        using True False x sc_def
        apply (elim conjE disjE exE)
         apply (intro conjI)
           apply simp
          apply simp
         apply (rule disjI2)
         apply (intro conjI)
          apply simp
         apply (rule exI[of _ "[]"], rule exI[of _ idx], rule exI[of _ it], rule exI[of _ xs])
         apply simp
        apply (intro conjI)
          apply simp
         apply simp
        apply (rule disjI2)
        subgoal for pre idx' it' post
          apply (intro conjI)
           apply simp
          apply (rule exI[of _ "(idx, it) # pre"], rule exI[of _ idx'], rule exI[of _ it'], rule exI[of _ post])
          apply simp
          done
        done
    next
      case nlt: False
      then have "scan_invoice po used xs (s0, m0, i0) = (s, m, i)"
        using Cons.prems x False by (simp add: sc_def score_of_def Let_def)
      from Cons.IH[OF this] show ?thesis
        using nlt False x sc_def
        apply (elim conjE disjE exE)
         apply simp
        apply (intro conjI)
          apply simp
         apply simp
        apply (rule disjI2)
        subgoal for pre idx' it' post
          apply (intro conjI)
           apply simp
          apply (rule exI[of _ "(idx, it) # pre"], rule exI[of _ idx'], rule exI[of _ it'], rule exI[of _ post])
          apply simp
          done
        done
    qed
  qed
qed

lemma best_of_char:
  assumes "best_of inv_items po used = (s, m, i)"
  shows "0 \<le> s
    \<and> (\<forall>j<length inv_items. Some j \<notin> used \<longrightarrow> score_of po (inv_items ! j) \<le> s)
    \<and> ((s, m, i) = (0, None, None)
        \<or> (0 < s \<and> (\<exists>j<length inv_items. i = Some j \<and> m = Some (inv_items ! j) \<and> Some j \<notin> used
              \<and> score_of po (inv_items ! j) = s
              \<and> (\<forall>j'<j. Some j' \<notin> used \<longrightarrow> score_of po (inv_items ! j') < s))))"
proof -
  let ?xs = "enumerate 0 inv_items"
  from assms have scan: "scan_invoice po used ?xs (0, None, None) = (s, m, i)"
    by (simp add: best_of_def)
  note r = scan_invoice_result[OF scan]
  have all: "\<forall>j<length inv_items. Some j \<notin> used \<longrightarrow> score_of po (inv_items ! j) \<le> s"
  proof (intro allI impI)
    fix j assume j: "j < length inv_items" "Some j \<notin> used"
    then have "(j, inv_items ! j) \<in> set ?xs" by (simp add: in_set_enumerate_eq)
    with r j show "score_of po (inv_items ! j) \<le> s" by blast
  qed
  from r have "(s, m, i) = (0, None, None)
      \<or> (0 < s \<and> (\<exists>pre idx it post. ?xs = pre @ (idx, it) # post \<and> Some idx \<notin> used
              \<and> score_of po it = s \<and> m = Some it \<and> i = Some idx
              \<and> (\<forall>(idx', it') \<in> set pre. Some idx' \<notin> used \<longrightarrow> score_of po it' < s)))"
    by blast
  then have third: "(s, m, i) = (0, None, None)
        \<or> (0 < s \<and> (\<exists>j<length inv_items. i = Some j \<and> m = Some (inv_items ! j) \<and> Some j \<notin> used
              \<and> score_of po (inv_items ! j) = s
              \<and> (\<forall>j'<j. Some j' \<notin> used \<longrightarrow> score_of po (inv_items ! j') < s)))"
  proof (elim disjE conjE exE)
    assume "(s, m, i) = (0, None, None)"
    then show ?thesis by blast
  next
    fix pre idx it post
    assume pos: "0 < s" and dec: "?xs = pre @ (idx, it) # post" and nu: "Some idx \<notin> used"
      and sc: "score_of po it = s" and m: "m = Some it" and i: "i = Some idx"
      and before: "\<forall>(idx', it') \<in> set pre. Some idx' \<notin> used \<longrightarrow> score_of po it' < s"
    have len: "length pre < length inv_items"
      using arg_cong[OF dec, of length] by simp
    have "?xs ! length pre = (idx, it)" by (simp add: dec)
    then have idx: "idx = length pre" and it: "it = inv_items ! length pre"
      using len by (auto simp: nth_enumerate_eq)
    have "\<forall>j'<idx. Some j' \<notin> used \<longrightarrow> score_of po (inv_items ! j') < s"
    proof (intro allI impI)
      fix j' assume j': "j' < idx" "Some j' \<notin> used"
      then have "?xs ! j' = pre ! j'" by (simp add: dec idx nth_append)
      moreover have "?xs ! j' = (j', inv_items ! j')"
        using j' len idx by (simp add: nth_enumerate_eq)
      ultimately have "(j', inv_items ! j') \<in> set pre"
        using j' idx by (metis nth_mem)
      with before j' show "score_of po (inv_items ! j') < s" by blast
    qed
    then show ?thesis using pos nu sc m i idx it len by blast
  qed
  from r have "0 \<le> s" by blast
  with all third show ?thesis by blast
qed

lemma po_loop_rows:
  "po_loop t inv_items ps (rows, used)
     = (rows @ fst (po_loop t inv_items ps ([], used)), snd (po_loop t inv_items ps ([], used)))"
proof (induction ps arbitrary: rows used)
  case Nil
  then show ?case by simp
next
  case (Cons p ps)
  obtain r used' where m: "match_po_item t inv_items p used = (r, used')"
    by (cases "match_po_item t inv_items p used")
  show ?case
    using Cons.IH[of "rows @ [r]" used'] Cons.IH[of "[r]" used'] by (simp add: m)
qed

lemma po_loop_append:
  "po_loop t inv_items (xs @ ys) st = po_loop t inv_items ys (po_loop t inv_items xs st)"
proof (induction xs arbitrary: st)
  case Nil
  then show ?case by simp
next
  case (Cons x xs)
  obtain rows used where st: "st = (rows, used)" by (cases st)
  show ?case by (simp add: st Cons.IH split: prod.split)
qed

lemma length_po_loop: "length (fst (po_loop t inv_items ps ([], used))) = length ps"
proof (induction ps arbitrary: used)
  case Nil
  then show ?case by simp
next
  case (Cons p ps)
  obtain r used' where m: "match_po_item t inv_items p used = (r, used')"
    by (cases "match_po_item t inv_items p used")
  show ?case
    using Cons.IH[of used'] po_loop_rows[of t inv_items ps "[r]" used'] by (simp add: m)
qed

lemma po_loop_take_Suc:
  assumes "k < length ps"
  shows "po_loop t inv_items (take (Suc k) ps) ([], {})
     = (fst (po_loop t inv_items (take k ps) ([], {}))
          @ [fst (match_po_item t inv_items (ps ! k) (used_before t inv_items ps k))],
        snd (match_po_item t inv_items (ps ! k) (used_before t inv_items ps k)))"
proof -
  obtain rows used where st: "po_loop t inv_items (take k ps) ([], {}) = (rows, used)"
    by (cases "po_loop t inv_items (take k ps) ([], {})")
  have u: "used_before t inv_items ps k = used" by (simp add: used_before_def st)
  have "take (Suc k) ps = take k ps @ [ps ! k]" using assms by (simp add: take_Suc_conv_app_nth)
  then show ?thesis
    by (simp add: po_loop_append st u split: prod.split)
qed

lemma used_before_Suc:
  "k < length ps \<Longrightarrow>
   used_before t inv_items ps (Suc k)
     = snd (match_po_item t inv_items (ps ! k) (used_before t inv_items ps k))"
  using po_loop_take_Suc[of k ps t inv_items] by (simp add: used_before_def)

lemma used_before_0: "used_before t inv_items ps 0 = {}"
  by (simp add: used_before_def)

lemma po_loop_nth:
  assumes "k < length ps"
  shows "fst (po_loop t inv_items ps ([], {})) ! k
     = fst (match_po_item t inv_items (ps ! k) (used_before t inv_items ps k))"
proof -
  have "ps = take (Suc k) ps @ drop (Suc k) ps" by simp
  then have "po_loop t inv_items ps ([], {})
     = po_loop t inv_items (drop (Suc k) ps) (po_loop t inv_items (take (Suc k) ps) ([], {}))"
    by (metis po_loop_append)
  also have "\<dots> = po_loop t inv_items (drop (Suc k) ps)
       (fst (po_loop t inv_items (take k ps) ([], {}))
          @ [fst (match_po_item t inv_items (ps ! k) (used_before t inv_items ps k))],
        snd (match_po_item t inv_items (ps ! k) (used_before t inv_items ps k)))"
    by (simp only: po_loop_take_Suc[OF assms])
  finally have "fst (po_loop t inv_items ps ([], {}))
     = (fst (po_loop t inv_items (take k ps) ([], {}))
          @ [fst (match_po_item t inv_items (ps ! k) (used_before t inv_items ps k))])
       @ fst (po_loop t inv_items (drop (Suc k) ps)
               ([], snd (match_po_item t inv_items (ps ! k) (used_before t inv_items ps k))))"
    by (subst (asm) po_loop_rows) simp
  moreover have "length (fst (po_loop t inv_items (take k ps) ([], {}))) = k"
    using assms by (simp add: length_po_loop)
  ultimately show ?thesis by (simp add: nth_append)
qed

lemma match_po_item_best_of:
  "match_po_item t inv_items po used =
     (case best_of inv_items po used of
        (s, m, i) \<Rightarrow> if t \<le> s then (po_row po m s, insert i used) else (po_row po None s, used))"
  by (simp add: match_po_item_def best_of_def)

lemma best_of_match_idx:
  assumes "best_of inv_items po used = (s, m, i)"
  shows "m = map_option (nth inv_items) i"
  using best_of_char[OF assms] by auto

lemma po_row_at:
  assumes "k < length ps"
  shows "fst (po_loop t inv_items ps ([], {})) ! k
     = po_row (ps ! k) (map_option (nth inv_items) (claimed_by t inv_items ps k))
         (best_score_at t inv_items ps k)"
proof -
  obtain s m i where b: "best_of inv_items (ps ! k) (used_before t inv_items ps k) = (s, m, i)"
    by (cases "best_of inv_items (ps ! k) (used_before t inv_items ps k)")
  show ?thesis
    using best_of_match_idx[OF b]
    by (simp add: po_loop_nth[OF assms] match_po_item_best_of b claimed_by_def best_score_at_def)
qed

lemma claimed_by_Some:
  assumes "claimed_by t inv_items ps k = Some j"
  shows "j < length inv_items \<and> Some j \<notin> used_before t inv_items ps k
    \<and> t \<le> score_of (ps ! k) (inv_items ! j)
    \<and> best_score_at t inv_items ps k = score_of (ps ! k) (inv_items ! j)
    \<and> (\<forall>j'<length inv_items. Some j' \<notin> used_before t inv_items ps k
          \<longrightarrow> score_of (ps ! k) (inv_items ! j') \<le> score_of (ps ! k) (inv_items ! j))
    \<and> (\<forall>j'<j. Some j' \<notin> used_before t inv_items ps k
          \<longrightarrow> score_of (ps ! k) (inv_items ! j') < score_of (ps ! k) (inv_items ! j))"
proof -
  obtain s m i where b: "best_of inv_items (ps ! k) (used_before t inv_items ps k) = (s, m, i)"
    by (cases "best_of inv_items (ps ! k) (used_before t inv_items ps k)")
  from assms b have ts: "t \<le> s" and i: "i = Some j"
    by (auto simp: claimed_by_def split: if_splits)
  from best_of_char[OF b] i ts show ?thesis
    by (auto simp: best_score_at_def b)
qed

lemma used_before_step:
  assumes "k < length ps"
  shows "Option.these (used_before t inv_items ps (Suc k))
     = Option.these (used_before t inv_items ps k) \<union> set_option (claimed_by t inv_items ps k)"
proof -
  obtain s m i where b: "best_of inv_items (ps ! k) (used_before t inv_items ps k) = (s, m, i)"
    by (cases "best_of inv_items (ps ! k) (used_before t inv_items ps k)")
  show ?thesis
    by (cases i) (auto simp: used_before_Suc[OF assms] match_po_item_best_of b claimed_by_def)
qed

lemma used_before_step_pos:
  assumes "k < length ps" and "0 < t"
  shows "used_before t inv_items ps (Suc k)
     = (case claimed_by t inv_items ps k of
          None \<Rightarrow> used_before t inv_items ps k
        | Some j \<Rightarrow> insert (Some j) (used_before t inv_items ps k))"
proof -
  obtain s m i where b: "best_of inv_items (ps ! k) (used_before t inv_items ps k) = (s, m, i)"
    by (cases "best_of inv_items (ps ! k) (used_before t inv_items ps k)")
  show ?thesis
    using best_of_char[OF b] assms(2)
    by (auto simp: used_before_Suc[OF assms(1)] match_po_item_best_of b claimed_by_def)
qed

lemma claimed_by_None_pos:
  assumes "0 < t"
  shows "claimed_by t inv_items ps k = None \<longleftrightarrow>
     (\<forall>j<length inv_items. Some j \<notin> used_before t inv_items ps k
        \<longrightarrow> score_of (ps ! k) (inv_items ! j) < t)"
proof -
  obtain s m i where b: "best_of inv_items (ps ! k) (used_before t inv_items ps k) = (s, m, i)"
    by (cases "best_of inv_items (ps ! k) (used_before t inv_items ps k)")
  note c = best_of_char[OF b]
  show ?thesis
  proof (cases "t \<le> s")
    case True
    then have "0 < s" using assms by simp
    with c obtain j where "j < length inv_items" "i = Some j" "Some j \<notin> used_before t inv_items ps k"
      "score_of (ps ! k) (inv_items ! j) = s" by auto
    then show ?thesis using True by (auto simp: claimed_by_def b)
  next
    case False
    then have "\<forall>j<length inv_items. Some j \<notin> used_before t inv_items ps k
        \<longrightarrow> score_of (ps ! k) (inv_items ! j) < t"
      using c by (meson le_less_trans not_le)
    then show ?thesis using False by (simp add: claimed_by_def b)
  qed
qed

lemma enumerate_upt: "enumerate 0 xs = map (\<lambda>j. (j, xs ! j)) [0..<length xs]"
  by (rule nth_equalityI) (simp_all add: nth_enumerate_eq)

lemma unmatched_loop_eq:
  "unmatched_loop used xs rows
     = rows @ map (\<lambda>p. unmatched_row (snd p)) (filter (\<lambda>p. Some (fst p) \<notin> used) xs)"
  by (induction xs arbitrary: rows) auto

lemma unmatched_loop_enumerate:
  "unmatched_loop used (enumerate 0 inv_items) rows
     = rows @ map (\<lambda>j. unmatched_row (inv_items ! j)) (unclaimed inv_items used)"
  by (simp add: unmatched_loop_eq enumerate_upt filter_map o_def unclaimed_def)

lemma used_before_length:
  "used_before t inv_items ps (length ps) = snd (po_loop t inv_items ps ([], {}))"
  by (simp add: used_before_def)

lemma item_rows_eq:
  "item_rows po_struct inv_struct t
     = fst (po_loop t (items_of inv_struct) (items_of po_struct) ([], {}))
       @ map (\<lambda>j. unmatched_row (items_of inv_struct ! j))
           (unclaimed (items_of inv_struct)
              (used_before t (items_of inv_struct) (items_of po_struct) (length (items_of po_struct))))"
  by (simp add: item_rows_def compare_structures_def Let_def items_of_def[symmetric]
      unmatched_loop_enumerate used_before_length split: prod.split)

lemma claimed_by_these:
  assumes "n \<le> length ps"
  shows "Option.these (used_before t inv_items ps n) = {j. \<exists>k<n. claimed_by t inv_items ps k = Some j}"
  using assms
proof (induction n)
  case 0
  then show ?case by (simp add: used_before_0)
next
  case (Suc n)
  then have "Option.these (used_before t inv_items ps (Suc n))
      = {j. \<exists>k<n. claimed_by t inv_items ps k = Some j} \<union> set_option (claimed_by t inv_items ps n)"
    by (simp add: used_before_step)
  also have "\<dots> = {j. \<exists>k<Suc n. claimed_by t inv_items ps k = Some j}"
    by (auto simp: less_Suc_eq)
  finally show ?case .
qed

lemma unclaimed_never_claimed:
  "unclaimed inv_items (used_before t inv_items ps (length ps))
     = filter (\<lambda>j. \<forall>k<length ps. claimed_by t inv_items ps k \<noteq> Some j) [0..<length inv_items]"
proof -
  have "Some j \<notin> used_before t inv_items ps (length ps)
      \<longleftrightarrow> (\<forall>k<length ps. claimed_by t inv_items ps k \<noteq> Some j)" for j
    using claimed_by_these[of "length ps" ps t inv_items, OF le_refl]
    by (auto simp: in_these_eq set_eq_iff)
  then show ?thesis by (simp add: unclaimed_def)
qed

lemma po_rows_eq:
  "fst (po_loop t inv_items ps ([], {}))
     = map (\<lambda>k. po_row (ps ! k) (map_option (nth inv_items) (claimed_by t inv_items ps k))
                 (best_score_at t inv_items ps k)) [0..<length ps]"
  by (rule nth_equalityI) (simp_all add: length_po_loop po_row_at)

lemma items_of_ex_doc: "items_of (ex_doc its) = its"
  by (simp add: items_of_def ex_doc_def dict_get_def)

lemma item_rows_nth:
  assumes "k < length (items_of po_struct)"
  shows "item_rows po_struct inv_struct t ! k
     = po_row (items_of po_struct ! k)
         (map_option (nth (items_of inv_struct))
            (claimed_by t (items_of inv_struct) (items_of po_struct) k))
         (best_score_at t (items_of inv_struct) (items_of po_struct) k)"
  using assms by (simp add: item_rows_eq nth_append length_po_loop po_row_at)

lemma ex_claims:
  "map (claimed_by default_threshold ex_inv_items ex_po_items) [0, 1, 2] = [Some 1, None, Some 2]"
  by code_simp

lemma ex_best_scores:
  "map (best_score_at default_threshold ex_inv_items ex_po_items) [0, 1, 2]
     = [to_double (8 / 9), to_double (2 / 7), 1]"
  by code_simp

lemma ex_threshold: "default_threshold = 3152519739159347 / 4503599627370496"
  by code_simp

lemma po_row_fields:
  "po_qty (po_row p m s) = dict_get (qty p) (PStr [])"
  "po_price (po_row p m s) = dict_get (unit_price p) (PStr [])"
  "po_total (po_row p m s) = dict_get (total p) (PStr [])"
  "inv_qty (po_row p m s) = inv_get m qty (PStr [])"
  "inv_price (po_row p m s) = inv_get m unit_price (PStr [])"
  "inv_total (po_row p m s) = inv_get m total (PStr [])"
  "inv_value (po_row p m s) = inv_get m description []"
  "po_value (po_row p m s) = dict_get (description p) []"
  "match_score (po_row p m s) = py_round2 s"
  "field (po_row p m s) = ''Item''"
  by (simp_all add: po_row_def Let_def)

lemma po_row_status:
  "status (po_row p m s) = ''Match'' \<longleftrightarrow>
     py_str (dict_get (qty p) (PStr [])) = py_str (inv_get m qty (PStr []))
     \<and> py_str (dict_get (unit_price p) (PStr [])) = py_str (inv_get m unit_price (PStr []))
     \<and> py_str (dict_get (total p) (PStr [])) = py_str (inv_get m total (PStr []))"
  "status (po_row p m s) \<noteq> ''Match'' \<longleftrightarrow> status (po_row p m s) = ''Mismatch''"
  by (auto simp: po_row_def Let_def)

lemma py_round2_0: "py_round2 0 = 0"
  by (simp add: py_round2_def round_half_even_def to_double_def)

lemma best_score_at_zero:
  assumes "\<forall>j<length inv_items. Some j \<notin> used_before t inv_items ps k
             \<longrightarrow> score_of (ps ! k) (inv_items ! j) = 0"
  shows "best_score_at t inv_items ps k = 0"
proof -
  obtain s m i where b: "best_of inv_items (ps ! k) (used_before t inv_items ps k) = (s, m, i)"
    by (cases "best_of inv_items (ps ! k) (used_before t inv_items ps k)")
  from best_of_char[OF b] assms have "s = 0" by force
  then show ?thesis by (simp add: best_score_at_def b)
qed

lemma claimed_by_below:
  "best_score_at t inv_items ps k < t \<Longrightarrow> claimed_by t inv_items ps k = None"
  by (auto simp: best_score_at_def claimed_by_def split: prod.split)

lemma used_before_below:
  assumes "k < length ps" and "best_score_at t inv_items ps k < t"
  shows "used_before t inv_items ps (Suc k) = used_before t inv_items ps k"
  using assms(2)
  by (auto simp: used_before_Suc[OF assms(1)] match_po_item_best_of best_score_at_def split: prod.split)

lemma used_before_pos:
  assumes "0 < t" and "n \<le> length ps"
  shows "used_before t inv_items ps n = Some ` {j. \<exists>k<n. claimed_by t inv_items ps k = Some j}"
  using assms(2)
proof (induction n)
  case 0
  then show ?case by (simp add: used_before_0)
next
  case (Suc n)
  then have IH: "used_before t inv_items ps n = Some ` {j. \<exists>k<n. claimed_by t inv_items ps k = Some j}"
    and n: "n < length ps" by simp_all
  show ?case
  proof (cases "claimed_by t inv_items ps n")
    case None
    then have "{j. \<exists>k<Suc n. claimed_by t inv_items ps k = Some j}
        = {j. \<exists>k<n. claimed_by t inv_items ps k = Some j}"
      by (auto simp: less_Suc_eq)
    then show ?thesis using None IH by (simp add: used_before_step_pos[OF n assms(1)])
  next
    case (Some j)
    then have "{j. \<exists>k<Suc n. claimed_by t inv_items ps k = Some j}
        = insert j {j. \<exists>k<n. claimed_by t inv_items ps k = Some j}"
      by (auto simp: less_Suc_eq)
    then show ?thesis using Some IH by (simp add: used_before_step_pos[OF n assms(1)])
  qed
qed

lemma score_of_ratio:
  "score_of p i = ratio (py_strip (py_lower (dict_get (description p) [])))
                        (py_strip (py_lower (dict_get (description i) [])))"
  by (simp add: score_of_def similar_def)

lemma claimed_by_inj:
  assumes "k < length ps" and "k' < length ps"
    and "claimed_by t inv_items ps k = Some j" and "claimed_by t inv_items ps k' = Some j"
  shows "k = k'"
proof -
  have later: False
    if "a < b" "b < length ps" "claimed_by t inv_items ps a = Some j"
      "claimed_by t inv_items ps b = Some j" for a b
  proof -
    have "j \<in> Option.these (used_before t inv_items ps b)"
      using that claimed_by_these[of b ps t inv_items] by auto
    then have "Some j \<in> used_before t inv_items ps b" by (simp add: in_these_eq)
    moreover have "Some j \<notin> used_before t inv_items ps b"
      using claimed_by_Some[OF that(4)] by simp
    ultimately show False by simp
  qed
  show ?thesis
    using later[of k k'] later[of k' k] assms by (cases k k' rule: linorder_cases) auto
qed

lemma count_claimed:
  assumes "n \<le> length ps"
  shows "count_list (map (claimed_by t inv_items ps) [0..<n]) (Some j)
     = (if \<exists>k<n. claimed_by t inv_items ps k = Some j then 1 else 0)"
  using assms
proof (induction n)
  case 0
  then show ?case by simp
next
  case (Suc n)
  then have IH: "count_list (map (claimed_by t inv_items ps) [0..<n]) (Some j)
     = (if \<exists>k<n. claimed_by t inv_items ps k = Some j then 1 else 0)"
    and n: "n < length ps" by simp_all
  show ?case
  proof (cases "claimed_by t inv_items ps n = Some j")
    case True
    have "\<not> (\<exists>k<n. claimed_by t inv_items ps k = Some j)"
    proof
      assume "\<exists>k<n. claimed_by t inv_items ps k = Some j"
      then obtain k where k: "k < n" "claimed_by t inv_items ps k = Some j" by blast
      then have "k < length ps" using n by simp
      from claimed_by_inj[OF this n k(2) True] k(1) show False by simp
    qed
    then show ?thesis using True IH by auto
  next
    case False
    then have "(\<exists>k<Suc n. claimed_by t inv_items ps k = Some j)
        \<longleftrightarrow> (\<exists>k<n. claimed_by t inv_items ps k = Some j)"
      by (auto simp: less_Suc_eq)
    then show ?thesis using False IH by simp
  qed
qed

lemma less_3_cases: "k < 3 \<longleftrightarrow> k = 0 \<or> k = 1 \<or> k = (2::nat)"
  by arith

lemma all_less_3: "(\<forall>k<(3::nat). P k) \<longleftrightarrow> P 0 \<and> P 1 \<and> P 2"
  by (auto simp: less_3_cases)

lemma count_filter_upt:
  "count_list (filter P [0..<m]) j = (if j < m \<and> P j then 1 else 0)"
  by (induction m) auto

lemma scan_invoice_cong:
  assumes "Option.these u1 = Option.these u2"
  shows "scan_invoice po u1 xs st = scan_invoice po u2 xs st"
proof -
  have m: "Some idx \<in> u1 \<longleftrightarrow> Some idx \<in> u2" for idx
    using assms by (metis in_these_eq)
  show ?thesis
  proof (induction xs arbitrary: st)
    case Nil
    then show ?case by simp
  next
    case (Cons x xs)
    obtain idx it where x: "x = (idx, it)" by (cases x)
    obtain s mt i where st: "st = (s, mt, i)" by (cases st)
    show ?case by (simp add: x st m Cons.IH Let_def)
  qed
qed

lemma best_of_cong:
  "Option.these u1 = Option.these u2 \<Longrightarrow> best_of inv_items po u1 = best_of inv_items po u2"
  unfolding best_of_def by (rule scan_invoice_cong)

lemma claimed_by_mono_same_used:
  assumes "t1 \<le> t2"
    and "Option.these (used_before t1 inv_items ps k) = Option.these (used_before t2 inv_items ps k)"
    and "claimed_by t2 inv_items ps k = Some j"
  shows "claimed_by t1 inv_items ps k = Some j"
proof -
  have b: "best_of inv_items (ps ! k) (used_before t1 inv_items ps k)
      = best_of inv_items (ps ! k) (used_before t2 inv_items ps k)"
    using assms(2) by (rule best_of_cong)
  obtain s m i where s: "best_of inv_items (ps ! k) (used_before t2 inv_items ps k) = (s, m, i)"
    by (cases "best_of inv_items (ps ! k) (used_before t2 inv_items ps k)")
  from assms(3) have "t2 \<le> s" "i = Some j"
    by (auto simp: claimed_by_def s split: if_splits)
  then show ?thesis using assms(1) by (simp add: claimed_by_def b s)
qed

lemma same_claims_until:
  assumes "t1 \<le> t2" and "n \<le> length ps"
    and "\<forall>k'<n. claimed_by t1 inv_items ps k' \<noteq> None \<longrightarrow> claimed_by t2 inv_items ps k' \<noteq> None"
  shows "Option.these (used_before t1 inv_items ps n) = Option.these (used_before t2 inv_items ps n)"
  using assms(2,3)
proof (induction n)
  case 0
  then show ?case by (simp add: used_before_0)
next
  case (Suc n)
  then have n: "n < length ps"
    and IH: "Option.these (used_before t1 inv_items ps n) = Option.these (used_before t2 inv_items ps n)"
    and keep: "claimed_by t1 inv_items ps n \<noteq> None \<longrightarrow> claimed_by t2 inv_items ps n \<noteq> None"
    by simp_all
  have eq: "claimed_by t1 inv_items ps n = claimed_by t2 inv_items ps n"
  proof (cases "claimed_by t2 inv_items ps n")
    case None
    then show ?thesis using keep by simp
  next
    case (Some j)
    then show ?thesis using claimed_by_mono_same_used[OF assms(1) IH Some] by simp
  qed
  have "Option.these (used_before t1 inv_items ps (Suc n))
      = Option.these (used_before t1 inv_items ps n) \<union> set_option (claimed_by t1 inv_items ps n)"
    by (rule used_before_step[OF n])
  also have "\<dots> = Option.these (used_before t2 inv_items ps n) \<union> set_option (claimed_by t2 inv_items ps n)"
    by (simp only: IH eq)
  also have "\<dots> = Option.these (used_before t2 inv_items ps (Suc n))"
    by (rule used_before_step[OF n, symmetric])
  finally show ?case .
qed

lemma best_of_nonneg: "best_of inv_items po used = (s, m, i) \<Longrightarrow> 0 \<le> s"
  using best_of_char by blast

lemma best_of_upper:
  "best_of inv_items po used = (s, m, i) \<Longrightarrow> j < length inv_items \<Longrightarrow> Some j \<notin> used
     \<Longrightarrow> score_of po (inv_items ! j) \<le> s"
  using best_of_char by blast

lemma best_of_attained:
  assumes "best_of inv_items po used = (s, m, i)"
  shows "s = 0 \<or> (\<exists>j<length inv_items. Some j \<notin> used \<and> score_of po (inv_items ! j) = s)"
proof -
  from best_of_char[OF assms]
  have "(s, m, i) = (0, None, None)
        \<or> (0 < s \<and> (\<exists>j<length inv_items. i = Some j \<and> m = Some (inv_items ! j) \<and> Some j \<notin> used
              \<and> score_of po (inv_items ! j) = s
              \<and> (\<forall>j'<j. Some j' \<notin> used \<longrightarrow> score_of po (inv_items ! j') < s)))"
    by (elim conjE)
  then show ?thesis
  proof
    assume "(s, m, i) = (0, None, None)"
    then show ?thesis by simp
  next
    assume "0 < s \<and> (\<exists>j<length inv_items. i = Some j \<and> m = Some (inv_items ! j) \<and> Some j \<notin> used
              \<and> score_of po (inv_items ! j) = s
              \<and> (\<forall>j'<j. Some j' \<notin> used \<longrightarrow> score_of po (inv_items ! j') < s))"
    then obtain j where "j < length inv_items" "Some j \<notin> used" "score_of po (inv_items ! j) = s"
      by (elim conjE exE)
    then show ?thesis by (intro disjI2 exI[of _ j] conjI)
  qed
qed

lemma in_unclaimed_items:
  "x \<in> set (map (nth inv_items) (unclaimed inv_items used))
     \<longleftrightarrow> (\<exists>j<length inv_items. Some j \<notin> used \<and> x = inv_items ! j)"
  by (auto simp: unclaimed_def)

lemma best_score_le:
  assumes b: "best_of inv_items po used = (s, m, i)"
    and b': "best_of inv_items' po used' = (s', m', i')"
    and sub: "set (map (nth inv_items) (unclaimed inv_items used))
           \<subseteq> set (map (nth inv_items') (unclaimed inv_items' used'))"
  shows "s \<le> s'"
proof -
  from best_of_attained[OF b] show ?thesis
  proof
    assume "s = 0"
    then show ?thesis using best_of_nonneg[OF b'] by simp
  next
    assume "\<exists>j<length inv_items. Some j \<notin> used \<and> score_of po (inv_items ! j) = s"
    then obtain j where j: "j < length inv_items" "Some j \<notin> used" "score_of po (inv_items ! j) = s"
      by (elim conjE exE)
    then have "inv_items ! j \<in> set (map (nth inv_items) (unclaimed inv_items used))"
      unfolding in_unclaimed_items by (intro exI[of _ j] conjI refl)
    then have "inv_items ! j \<in> set (map (nth inv_items') (unclaimed inv_items' used'))"
      using sub by (rule subsetD[rotated])
    then obtain j' where j': "j' < length inv_items'" "Some j' \<notin> used'" "inv_items ! j = inv_items' ! j'"
      unfolding in_unclaimed_items by (elim conjE exE)
    from best_of_upper[OF b' j'(1,2)] j(3) j'(3) show ?thesis by simp
  qed
qed

lemma best_score_unique:
  assumes b: "best_of inv_items po used = (s, m, i)"
    and b': "best_of inv_items' po used' = (s', m', i')"
    and eq: "set (map (nth inv_items) (unclaimed inv_items used))
           = set (map (nth inv_items') (unclaimed inv_items' used'))"
  shows "s = s'"
proof (rule antisym)
  show "s \<le> s'" using eq by (intro best_score_le[OF b b']) simp
  show "s' \<le> s" using eq by (intro best_score_le[OF b' b]) simp
qed

lemma best_idx_None_iff:
  assumes "best_of inv_items po used = (s, m, i)"
  shows "i = None \<longleftrightarrow> s = 0"
proof
  assume "i = None"
  with best_of_char[OF assms] show "s = 0" by auto
next
  assume "s = 0"
  with best_of_char[OF assms] show "i = None" by auto
qed

lemma claimed_by_None_iff:
  "claimed_by t inv_items ps k = None
     \<longleftrightarrow> best_score_at t inv_items ps k < t \<or> best_score_at t inv_items ps k = 0"
proof -
  obtain s m i where b: "best_of inv_items (ps ! k) (used_before t inv_items ps k) = (s, m, i)"
    by (cases "best_of inv_items (ps ! k) (used_before t inv_items ps k)")
  show ?thesis
    using best_idx_None_iff[OF b] by (auto simp: claimed_by_def best_score_at_def b)
qed

lemma unclaimed_empty: "map (nth xs) (unclaimed xs {}) = xs"
  by (simp add: unclaimed_def map_nth)

lemma tie_permutation: "mset tie_inv_items_permuted = mset tie_inv_items"
  by (simp add: tie_inv_items_def tie_inv_items_permuted_def)

lemma tie_claims:
  "map (claimed_by default_threshold tie_inv_items tie_po_items) [0, 1] = [Some 0, None]"
  "map (claimed_by default_threshold tie_inv_items_permuted tie_po_items) [0, 1] = [Some 0, Some 1]"
  by code_simp+

lemma carries_po_row:
  "carries_no_item (po_row p None s)"
  "carries_item (po_row p (Some i) s) i"
  by (simp_all add: carries_no_item_def carries_item_def po_row_fields inv_get_def)

lemma carries_unmatched_row: "carries_item (unmatched_row i) i"
  by (simp add: carries_item_def unmatched_row_def)

lemma unclaimed_nth_less:
  assumes "n < length (unclaimed inv_items used)"
  shows "unclaimed inv_items used ! n < length inv_items"
proof -
  have "unclaimed inv_items used ! n \<in> set (unclaimed inv_items used)"
    using assms by (rule nth_mem)
  then show ?thesis by (simp add: unclaimed_def)
qed

lemma length_item_rows:
  "length (item_rows po_struct inv_struct t)
     = length (items_of po_struct)
       + length (unclaimed (items_of inv_struct)
           (used_before t (items_of inv_struct) (items_of po_struct) (length (items_of po_struct))))"
  by (simp add: item_rows_eq length_po_loop)

lemma length_row_sources:
  "length (row_sources t inv_items po_items)
     = length po_items
       + length (unclaimed inv_items (used_before t inv_items po_items (length po_items)))"
  by (simp add: row_sources_def)

lemma item_rows_nth_unmatched:
  assumes "n < length (unclaimed (items_of inv_struct)
           (used_before t (items_of inv_struct) (items_of po_struct) (length (items_of po_struct))))"
  shows "item_rows po_struct inv_struct t ! (length (items_of po_struct) + n)
     = unmatched_row (items_of inv_struct
         ! (unclaimed (items_of inv_struct)
              (used_before t (items_of inv_struct) (items_of po_struct) (length (items_of po_struct))) ! n))"
  using assms by (simp add: item_rows_eq nth_append length_po_loop)

lemma row_shows_source:
  assumes "n < length (item_rows po_struct inv_struct t)"
  shows "case row_sources t (items_of inv_struct) (items_of po_struct) ! n of
           None \<Rightarrow> carries_no_item (item_rows po_struct inv_struct t ! n)
         | Some j \<Rightarrow> j < length (items_of inv_struct)
                     \<and> carries_item (item_rows po_struct inv_struct t ! n) (items_of inv_struct ! j)"
proof (cases "n < length (items_of po_struct)")
  case True
  then have src: "row_sources t (items_of inv_struct) (items_of po_struct) ! n
      = claimed_by t (items_of inv_struct) (items_of po_struct) n"
    by (simp add: row_sources_def nth_append)
  show ?thesis
  proof (cases "claimed_by t (items_of inv_struct) (items_of po_struct) n")
    case None
    then show ?thesis
      by (simp add: src item_rows_nth[OF True] carries_po_row)
  next
    case (Some j)
    then have "j < length (items_of inv_struct)" using claimed_by_Some by blast
    then show ?thesis
      by (simp add: src Some item_rows_nth[OF True] carries_po_row)
  qed
next
  case False
  define m where "m = n - length (items_of po_struct)"
  have n: "n = length (items_of po_struct) + m" using False by (simp add: m_def)
  have m: "m < length (unclaimed (items_of inv_struct)
           (used_before t (items_of inv_struct) (items_of po_struct) (length (items_of po_struct))))"
    using assms by (simp add: n length_item_rows)
  have src: "row_sources t (items_of inv_struct) (items_of po_struct) ! n
      = Some (unclaimed (items_of inv_struct)
           (used_before t (items_of inv_struct) (items_of po_struct) (length (items_of po_struct))) ! m)"
    using m by (simp add: row_sources_def nth_append n)
  have row: "item_rows po_struct inv_struct t ! n
      = unmatched_row (items_of inv_struct
         ! (unclaimed (items_of inv_struct)
              (used_before t (items_of inv_struct) (items_of po_struct) (length (items_of po_struct))) ! m))"
    unfolding n by (rule item_rows_nth_unmatched[OF m])
  show ?thesis
    unfolding src row using unclaimed_nth_less[OF m] by (simp add: carries_unmatched_row)
qed

lemma count_list_map_Some: "count_list (map Some xs) (Some j) = count_list xs j"
  by (induction xs) auto

lemma count_row_sources:
  assumes "j < length inv_items"
  shows "count_list (row_sources t inv_items po_items) (Some j) = 1"
  using assms
  by (auto simp: row_sources_def count_list_map_Some unclaimed_never_claimed count_claimed
      count_filter_upt)

lemma item_rows_field:
  assumes "n < length (item_rows po_struct inv_struct t)"
  shows "field (item_rows po_struct inv_struct t ! n)
     = (if n < length (items_of po_struct) then ''Item'' else ''Item (Unmatched Invoice)'')"
proof (cases "n < length (items_of po_struct)")
  case True
  then show ?thesis by (simp add: item_rows_nth po_row_fields)
next
  case False
  define m where "m = n - length (items_of po_struct)"
  have n: "n = length (items_of po_struct) + m" using False by (simp add: m_def)
  have m: "m < length (unclaimed (items_of inv_struct)
           (used_before t (items_of inv_struct) (items_of po_struct) (length (items_of po_struct))))"
    using assms by (simp add: n length_item_rows)
  show ?thesis
    by (simp add: n item_rows_nth_unmatched[OF m] unmatched_row_def)
qed

lemma ex_row_sources:
  "row_sources default_threshold ex_inv_items ex_po_items = [Some 1, None, Some 2, Some 0]"
  by code_simp


subsection \<open>The run over a state and the function\<close>

text \<open>
  Each loop over the state does what the loop of the function does on the variables it owns,
  and leaves the rest of the state as it was.
\<close>

lemma header_loop_st_eq:
  "header_loop_st fs s
     = s\<lparr>v_header_checks := v_header_checks s @ map (header_check_of (o_po_struct s) (o_inv_struct s)) fs\<rparr>"
  by (induction fs arbitrary: s) simp_all

lemma scan_invoice_st_eq:
  "scan_invoice_st po_it xs s
     = (case scan_invoice po_it (v_inv_used s) xs (v_best_score s, v_best_match s, v_best_idx s) of
          (bs, bm, bi) \<Rightarrow> s\<lparr>v_best_score := bs, v_best_match := bm, v_best_idx := bi\<rparr>)"
proof (induction xs arbitrary: s)
  case Nil
  show ?case by simp
next
  case (Cons x xs)
  obtain idx inv_it where x: "x = (idx, inv_it)" by (cases x)
  show ?case unfolding x by (simp add: Cons Let_def)
qed

lemma po_item_st_eq:
  "po_item_st t inv_items po_it s
     = (case scan_invoice po_it (v_inv_used s) (enumerate 0 inv_items) (0, None, None) of
          (bs, bm, bi) \<Rightarrow>
            s\<lparr>v_best_match := bm, v_best_score := bs, v_best_idx := bi,
              v_inv_used := snd (match_po_item t inv_items po_it (v_inv_used s)),
              v_rows := v_rows s @ [fst (match_po_item t inv_items po_it (v_inv_used s))]\<rparr>)"
  by (simp add: po_item_st_def match_po_item_def scan_invoice_st_eq Let_def split: prod.split)

lemma po_item_st_frame:
  "same_outside s (po_item_st t inv_items po_it s)
   \<and> v_header_checks (po_item_st t inv_items po_it s) = v_header_checks s
   \<and> v_rows (po_item_st t inv_items po_it s) = v_rows s @ [fst (match_po_item t inv_items po_it (v_inv_used s))]
   \<and> v_inv_used (po_item_st t inv_items po_it s) = snd (match_po_item t inv_items po_it (v_inv_used s))"
  by (simp add: po_item_st_eq same_outside_def split: prod.split)

lemma same_outside_refl: "same_outside s s"
  by (simp add: same_outside_def)

lemma same_outside_trans: "same_outside a b \<Longrightarrow> same_outside b c \<Longrightarrow> same_outside a c"
  by (simp add: same_outside_def)

lemma po_loop_st_eq:
  "same_outside s (po_loop_st t inv_items ps s)
   \<and> v_header_checks (po_loop_st t inv_items ps s) = v_header_checks s
   \<and> (v_rows (po_loop_st t inv_items ps s), v_inv_used (po_loop_st t inv_items ps s))
       = po_loop t inv_items ps (v_rows s, v_inv_used s)"
proof (induction ps arbitrary: s)
  case Nil
  show ?case by (simp add: same_outside_refl)
next
  case (Cons p ps)
  note f = po_item_st_frame[of s t inv_items p]
  note ih = Cons[of "po_item_st t inv_items p s"]
  have "same_outside s (po_loop_st t inv_items (p # ps) s)"
    using f ih same_outside_trans by auto
  moreover have "v_header_checks (po_loop_st t inv_items (p # ps) s) = v_header_checks s"
    using f ih by simp
  moreover have "(v_rows (po_loop_st t inv_items (p # ps) s), v_inv_used (po_loop_st t inv_items (p # ps) s))
       = po_loop t inv_items (p # ps) (v_rows s, v_inv_used s)"
    using f ih by (simp split: prod.split)
  ultimately show ?case by blast
qed

lemma unmatched_loop_st_eq:
  "unmatched_loop_st xs s = s\<lparr>v_rows := unmatched_loop (v_inv_used s) xs (v_rows s)\<rparr>"
proof (induction xs arbitrary: s)
  case Nil
  show ?case by simp
next
  case (Cons x xs)
  obtain idx inv_it where x: "x = (idx, inv_it)" by (cases x)
  show ?case unfolding x by (simp add: Cons)
qed

lemma compare_structures_st_report:
  "fst (compare_structures_st t s) = compare_structures (o_po_struct s) (o_inv_struct s) t"
proof -
  define s3 where "s3 = header_loop_st header_fields (s\<lparr>v_rows := [], v_header_checks := []\<rparr>)"
  define s4 where "s4 = s3\<lparr>v_inv_used := {}\<rparr>"
  define po_items where "po_items = dict_get (items (o_po_struct s)) []"
  define inv_items where "inv_items = dict_get (items (o_inv_struct s)) []"
  define s5 where "s5 = po_loop_st t inv_items po_items s4"
  have s3: "s3 = s\<lparr>v_rows := [], v_header_checks := compare_headers (o_po_struct s) (o_inv_struct s)\<rparr>"
    by (simp add: s3_def header_loop_st_eq compare_headers_def)
  have o3: "o_po_struct s3 = o_po_struct s" "o_inv_struct s3 = o_inv_struct s"
    by (simp_all add: s3)
  have s4: "v_rows s4 = []" "v_inv_used s4 = {}"
    "v_header_checks s4 = compare_headers (o_po_struct s) (o_inv_struct s)"
    by (simp_all add: s4_def s3)
  note l = po_loop_st_eq[of s4 t inv_items po_items]
  have h5: "v_header_checks s5 = compare_headers (o_po_struct s) (o_inv_struct s)"
    using l by (simp add: s5_def s4)
  have r5: "(v_rows s5, v_inv_used s5) = po_loop t inv_items po_items ([], {})"
    using l by (simp add: s5_def s4)
  have run: "compare_structures_st t s
      = ((v_header_checks (unmatched_loop_st (enumerate 0 inv_items) s5),
          v_rows (unmatched_loop_st (enumerate 0 inv_items) s5)),
         unmatched_loop_st (enumerate 0 inv_items) s5)"
    by (simp add: compare_structures_st_def Let_def s5_def s4_def s3_def po_items_def inv_items_def
        header_loop_st_eq)
  show ?thesis
    unfolding run compare_structures_def Let_def
    using r5 h5
    by (simp add: unmatched_loop_st_eq po_items_def[symmetric] inv_items_def[symmetric]
        split: prod.split) (metis fst_conv snd_conv)
qed

lemma compare_structures_st_frame:
  "same_outside s (snd (compare_structures_st t s))"
proof -
  define s3 where "s3 = header_loop_st header_fields (s\<lparr>v_rows := [], v_header_checks := []\<rparr>)"
  define s4 where "s4 = s3\<lparr>v_inv_used := {}\<rparr>"
  define po_items where "po_items = dict_get (items (o_po_struct s)) []"
  define inv_items where "inv_items = dict_get (items (o_inv_struct s)) []"
  define s5 where "s5 = po_loop_st t inv_items po_items s4"
  have a: "same_outside s s4"
    by (simp add: s4_def s3_def header_loop_st_eq same_outside_def)
  have b: "same_outside s4 s5"
    using po_loop_st_eq[of s4 t inv_items po_items] by (simp add: s5_def)
  have c: "same_outside s5 (unmatched_loop_st (enumerate 0 inv_items) s5)"
    by (simp add: unmatched_loop_st_eq same_outside_def)
  have run: "snd (compare_structures_st t s) = unmatched_loop_st (enumerate 0 inv_items) s5"
    by (simp add: compare_structures_st_def Let_def s5_def s4_def s3_def po_items_def inv_items_def
        header_loop_st_eq)
  show ?thesis unfolding run using a b c same_outside_trans by blast
qed

lemma ex_report_inv_values:
  "map inv_value (snd (compare_structures (ex_doc ex_po_items) (ex_doc ex_inv_items) default_threshold))
     = [''Bolt-10mm '', [], ''HEX NUT m8'', ''Shipping Fee'']"
  by code_simp

lemma ex_states_records:
  "o_po_struct ex_used_state = ex_doc ex_po_items \<and> o_inv_struct ex_used_state = ex_doc ex_inv_items
   \<and> o_po_struct ex_fresh_state = ex_doc ex_po_items \<and> o_inv_struct ex_fresh_state = ex_doc ex_inv_items"
  by (simp add: ex_used_state_def ex_fresh_state_def)


section \<open>The claims\<close>


text \<open>
  C1, as the code has it: for a threshold above 0. The PO items are processed in their
  order; when PO item \<open>k\<close> is reached, \<open>inv_used\<close> holds the indices that the PO items
  before it claimed. The score of the PO item against an invoice item is the library's
  \<open>ratio\<close> of the two descriptions, lower-cased and trimmed, and lies between 0 and 1. The
  PO item claims an invoice item exactly when some unclaimed invoice item scores at least
  the threshold; the item it claims is unclaimed, has the highest score among the
  unclaimed ones, and is the first with that score; \<open>inv_used\<close> grows by that index and by
  nothing else, and the row of the PO item is built from the PO item and the claimed item.
\<close>

theorem greedy_item_matching:
  assumes "po_items = items_of po_struct" and "inv_items = items_of inv_struct"
    and "0 < t" and "k < length po_items"
  shows "(let inv_used = used_before t inv_items po_items k;
              p = po_items ! k;
              c = claimed_by t inv_items po_items k;
              score = (\<lambda>j. score_of p (inv_items ! j))
     in inv_used = Some ` {j. \<exists>k'<k. claimed_by t inv_items po_items k' = Some j}
      \<and> (\<forall>j<length inv_items.
            score j = ratio (py_strip (py_lower (dict_get (description p) [])))
                            (py_strip (py_lower (dict_get (description (inv_items ! j)) [])))
            \<and> 0 \<le> score j \<and> score j \<le> 1)
      \<and> (c \<noteq> None \<longleftrightarrow> (\<exists>j<length inv_items. Some j \<notin> inv_used \<and> t \<le> score j))
      \<and> (\<forall>j. c = Some j \<longrightarrow>
            j < length inv_items \<and> Some j \<notin> inv_used \<and> t \<le> score j
            \<and> best_score_at t inv_items po_items k = score j
            \<and> (\<forall>j'<length inv_items. Some j' \<notin> inv_used \<longrightarrow> score j' \<le> score j)
            \<and> (\<forall>j'<j. Some j' \<notin> inv_used \<longrightarrow> score j' < score j))
      \<and> used_before t inv_items po_items (Suc k)
          = (case c of None \<Rightarrow> inv_used | Some j \<Rightarrow> insert (Some j) inv_used)
      \<and> item_rows po_struct inv_struct t ! k
          = po_row p (map_option (nth inv_items) c) (best_score_at t inv_items po_items k))"
proof -
  have 1: "used_before t inv_items po_items k
      = Some ` {j. \<exists>k'<k. claimed_by t inv_items po_items k' = Some j}"
    using assms(3,4) by (intro used_before_pos) simp_all
  have 2: "\<forall>j<length inv_items.
      score_of (po_items ! k) (inv_items ! j)
        = ratio (py_strip (py_lower (dict_get (description (po_items ! k)) [])))
                (py_strip (py_lower (dict_get (description (inv_items ! j)) [])))
      \<and> 0 \<le> score_of (po_items ! k) (inv_items ! j) \<and> score_of (po_items ! k) (inv_items ! j) \<le> 1"
    using score_of_unit score_of_ratio by blast
  have 3: "claimed_by t inv_items po_items k \<noteq> None \<longleftrightarrow>
      (\<exists>j<length inv_items. Some j \<notin> used_before t inv_items po_items k
          \<and> t \<le> score_of (po_items ! k) (inv_items ! j))"
    using claimed_by_None_pos[OF assms(3), of inv_items po_items k] by (auto simp: not_less)
  have 4: "\<forall>j. claimed_by t inv_items po_items k = Some j \<longrightarrow>
      j < length inv_items \<and> Some j \<notin> used_before t inv_items po_items k
      \<and> t \<le> score_of (po_items ! k) (inv_items ! j)
      \<and> best_score_at t inv_items po_items k = score_of (po_items ! k) (inv_items ! j)
      \<and> (\<forall>j'<length inv_items. Some j' \<notin> used_before t inv_items po_items k
            \<longrightarrow> score_of (po_items ! k) (inv_items ! j') \<le> score_of (po_items ! k) (inv_items ! j))
      \<and> (\<forall>j'<j. Some j' \<notin> used_before t inv_items po_items k
            \<longrightarrow> score_of (po_items ! k) (inv_items ! j') < score_of (po_items ! k) (inv_items ! j))"
    using claimed_by_Some by blast
  have 5: "used_before t inv_items po_items (Suc k)
      = (case claimed_by t inv_items po_items k of
           None \<Rightarrow> used_before t inv_items po_items k
         | Some j \<Rightarrow> insert (Some j) (used_before t inv_items po_items k))"
    using assms(3,4) by (rule used_before_step_pos[rotated])
  have 6: "item_rows po_struct inv_struct t ! k
      = po_row (po_items ! k) (map_option (nth inv_items) (claimed_by t inv_items po_items k))
          (best_score_at t inv_items po_items k)"
    using assms(1,2,4) by (simp add: item_rows_nth)
  show ?thesis
    unfolding Let_def using 1 2 3 4 5 6 by (intro conjI)
qed

theorem greedy_item_matching_witness:
  "ex_po_items = items_of (ex_doc ex_po_items) \<and> ex_inv_items = items_of (ex_doc ex_inv_items)
   \<and> 0 < default_threshold \<and> 0 < length ex_po_items
   \<and> claimed_by default_threshold ex_inv_items ex_po_items 0 = Some 1
   \<and> best_score_at default_threshold ex_inv_items ex_po_items 0
       = score_of (ex_po_items ! 0) (ex_inv_items ! 1)
   \<and> used_before default_threshold ex_inv_items ex_po_items (Suc 0) = {Some 1}
   \<and> item_rows (ex_doc ex_po_items) (ex_doc ex_inv_items) default_threshold ! 0
       = po_row (ex_po_items ! 0) (Some (ex_inv_items ! 1))
           (best_score_at default_threshold ex_inv_items ex_po_items 0)"
proof -
  have a: "ex_po_items = items_of (ex_doc ex_po_items)" by (simp add: items_of_ex_doc)
  have b: "ex_inv_items = items_of (ex_doc ex_inv_items)" by (simp add: items_of_ex_doc)
  have t: "0 < default_threshold" by (simp add: ex_threshold)
  have k: "0 < length ex_po_items" by (simp add: ex_po_items_def)
  have c: "claimed_by default_threshold ex_inv_items ex_po_items 0 = Some 1"
    using ex_claims by simp
  note g = greedy_item_matching[OF a b t k, unfolded Let_def c]
  have s: "best_score_at default_threshold ex_inv_items ex_po_items 0
       = score_of (ex_po_items ! 0) (ex_inv_items ! 1)"
    using g by blast
  have u: "used_before default_threshold ex_inv_items ex_po_items (Suc 0) = {Some 1}"
    using g by (simp add: used_before_0)
  have r: "item_rows (ex_doc ex_po_items) (ex_doc ex_inv_items) default_threshold ! 0
       = po_row (ex_po_items ! 0) (Some (ex_inv_items ! 1))
           (best_score_at default_threshold ex_inv_items ex_po_items 0)"
    using g by simp
  from a b t k c s u r show ?thesis by (intro conjI)
qed


text \<open>
  The claim as stated is for every threshold. With the threshold 0, the PO item Nut and the
  invoice item Bag (score 0): the best score is not below the threshold, the accepting
  branch runs with \<open>best_idx = None\<close>, and the invoice item is not claimed: it is reported
  as an unmatched invoice item.
\<close>

theorem zero_threshold_counterexample:
  "score_of (ex_item ''Nut'') (ex_item ''Bag'') = 0
   \<and> best_score_at 0 [ex_item ''Bag''] [ex_item ''Nut''] 0 = 0
   \<and> (0::rat) \<le> best_score_at 0 [ex_item ''Bag''] [ex_item ''Nut''] 0
   \<and> claimed_by 0 [ex_item ''Bag''] [ex_item ''Nut''] 0 = None
   \<and> map (\<lambda>r. (field r, po_value r, inv_value r))
        (item_rows (ex_doc [ex_item ''Nut'']) (ex_doc [ex_item ''Bag'']) 0)
      = [(''Item'', ''Nut'', []), (''Item (Unmatched Invoice)'', [], ''Bag'')]"
  by code_simp


text \<open>
  C2. The header checks are the four fields Document Number, Vendor, Date and Grand Total, in
  this order, each with the PO value and the invoice value (the empty string for a missing
  key). The status of a field is Match exactly when the string forms of both values are
  non-empty after trimming and equal after trimming, and Mismatch otherwise; a missing
  value gives Mismatch. A grand total \<open>"1200.00"\<close> against \<open>"1200"\<close> is a Mismatch.
\<close>

theorem header_check_match_iff:
  "list_all2
     (\<lambda>(label, key) (field_label, po_val, inv_val, status).
        field_label = label
        \<and> po_val = dict_get (key po_struct) (PStr [])
        \<and> inv_val = dict_get (key inv_struct) (PStr [])
        \<and> (status = ''Match'' \<longleftrightarrow>
             py_strip (py_str po_val) \<noteq> [] \<and> py_strip (py_str inv_val) \<noteq> []
             \<and> py_strip (py_str po_val) = py_strip (py_str inv_val))
        \<and> (status \<noteq> ''Match'' \<longleftrightarrow> status = ''Mismatch'')
        \<and> (key po_struct = None \<or> key inv_struct = None \<longrightarrow> status = ''Mismatch''))
     [(''Document Number'', number), (''Vendor'', vendor), (''Date'', date),
      (''Grand Total'', grand_total)]
     (fst (compare_structures po_struct inv_struct t))
   \<and> (grand_total po_struct = Some (PStr ''1200.00'') \<and> grand_total inv_struct = Some (PStr ''1200'')
        \<longrightarrow> snd (snd (snd (fst (compare_structures po_struct inv_struct t) ! 3))) = ''Mismatch'')"
proof (intro conjI impI)
  show "grand_total po_struct = Some (PStr ''1200.00'') \<and> grand_total inv_struct = Some (PStr ''1200'')
    \<Longrightarrow> snd (snd (snd (fst (compare_structures po_struct inv_struct t) ! 3))) = ''Mismatch''"
    using strip_1200
    by (simp add: fst_compare_structures compare_headers_unfold header_status_def dict_get_def)
  show "list_all2
     (\<lambda>(label, key) (field_label, po_val, inv_val, status).
        field_label = label
        \<and> po_val = dict_get (key po_struct) (PStr [])
        \<and> inv_val = dict_get (key inv_struct) (PStr [])
        \<and> (status = ''Match'' \<longleftrightarrow>
             py_strip (py_str po_val) \<noteq> [] \<and> py_strip (py_str inv_val) \<noteq> []
             \<and> py_strip (py_str po_val) = py_strip (py_str inv_val))
        \<and> (status \<noteq> ''Match'' \<longleftrightarrow> status = ''Mismatch'')
        \<and> (key po_struct = None \<or> key inv_struct = None \<longrightarrow> status = ''Mismatch''))
     [(''Document Number'', number), (''Vendor'', vendor), (''Date'', date),
      (''Grand Total'', grand_total)]
     (fst (compare_structures po_struct inv_struct t))"
    (is "list_all2 ?R _ _")
  proof -
    have R: "?R (label, key)
               (label, dict_get (key po_struct) (PStr []), dict_get (key inv_struct) (PStr []),
                header_status (dict_get (key po_struct) (PStr [])) (dict_get (key inv_struct) (PStr [])))"
      for label key
      using header_status_Match[of "dict_get (key po_struct) (PStr [])" "dict_get (key inv_struct) (PStr [])"]
        header_status_cases[of "dict_get (key po_struct) (PStr [])" "dict_get (key inv_struct) (PStr [])"]
        header_status_missing
      by (auto simp: dict_get_def)
    show ?thesis
      unfolding fst_compare_structures compare_headers_unfold
      by (intro list.rel_intros R)
  qed
qed

theorem header_check_match_iff_witness:
  "grand_total ex_po = Some (PStr ''1200.00'') \<and> grand_total ex_inv = Some (PStr ''1200'')
   \<and> snd (snd (snd (fst (compare_structures ex_po ex_inv default_threshold) ! 3))) = ''Mismatch''
   \<and> map (\<lambda>(field_label, po_val, inv_val, status). status)
        (fst (compare_structures ex_po ex_inv default_threshold))
      = [''Match'', ''Mismatch'', ''Mismatch'', ''Mismatch'']"
proof -
  have a: "grand_total ex_po = Some (PStr ''1200.00'')" by (simp add: ex_po_def)
  have b: "grand_total ex_inv = Some (PStr ''1200'')" by (simp add: ex_inv_def)
  have c: "snd (snd (snd (fst (compare_structures ex_po ex_inv default_threshold) ! 3))) = ''Mismatch''"
    using header_check_match_iff[of ex_po ex_inv default_threshold] a b by blast
  have d: "map (\<lambda>(field_label, po_val, inv_val, status). status)
        (fst (compare_structures ex_po ex_inv default_threshold))
      = [''Match'', ''Mismatch'', ''Mismatch'', ''Mismatch'']"
    by code_simp
  show ?thesis using a b c d by blast
qed


text \<open>
  C3. When a PO item claims an invoice item, the row carries the quantity, unit price and
  total of both items, and its status is Match exactly when the string forms of the two
  quantities, of the two unit prices and of the two totals are equal, as strings; otherwise
  it is Mismatch. No number is normalised: the unit prices \<open>"5.00"\<close> and \<open>"5.0"\<close> give
  Mismatch.
\<close>

theorem matched_row_status:
  assumes "po_items = items_of po_struct" and "inv_items = items_of inv_struct"
    and "k < length po_items" and "claimed_by t inv_items po_items k = Some j"
  shows "(let r = item_rows po_struct inv_struct t ! k; p = po_items ! k; i = inv_items ! j
     in po_qty r = dict_get (qty p) (PStr []) \<and> inv_qty r = dict_get (qty i) (PStr [])
      \<and> po_price r = dict_get (unit_price p) (PStr []) \<and> inv_price r = dict_get (unit_price i) (PStr [])
      \<and> po_total r = dict_get (total p) (PStr []) \<and> inv_total r = dict_get (total i) (PStr [])
      \<and> (status r = ''Match'' \<longleftrightarrow>
            py_str (po_qty r) = py_str (inv_qty r) \<and> py_str (po_price r) = py_str (inv_price r)
            \<and> py_str (po_total r) = py_str (inv_total r))
      \<and> (status r \<noteq> ''Match'' \<longleftrightarrow> status r = ''Mismatch'')
      \<and> (po_price r = PStr ''5.00'' \<and> inv_price r = PStr ''5.0'' \<longrightarrow> status r = ''Mismatch''))"
proof -
  have r: "item_rows po_struct inv_struct t ! k
      = po_row (po_items ! k) (Some (inv_items ! j)) (best_score_at t inv_items po_items k)"
    using assms by (simp add: item_rows_nth)
  show ?thesis
    unfolding Let_def r po_row_fields
    using po_row_status[of "po_items ! k" "Some (inv_items ! j)" "best_score_at t inv_items po_items k"]
    by (auto simp: inv_get_def)
qed

theorem matched_row_status_witness:
  "ex_po_items = items_of (ex_doc ex_po_items) \<and> ex_inv_items = items_of (ex_doc ex_inv_items)
   \<and> 2 < length ex_po_items \<and> claimed_by default_threshold ex_inv_items ex_po_items 2 = Some 2
   \<and> po_price (item_rows (ex_doc ex_po_items) (ex_doc ex_inv_items) default_threshold ! 2) = PStr ''5.00''
   \<and> inv_price (item_rows (ex_doc ex_po_items) (ex_doc ex_inv_items) default_threshold ! 2) = PStr ''5.0''
   \<and> status (item_rows (ex_doc ex_po_items) (ex_doc ex_inv_items) default_threshold ! 2) = ''Mismatch''"
proof -
  have a: "ex_po_items = items_of (ex_doc ex_po_items)" by (simp add: items_of_ex_doc)
  have b: "ex_inv_items = items_of (ex_doc ex_inv_items)" by (simp add: items_of_ex_doc)
  have c: "2 < length ex_po_items" by (simp add: ex_po_items_def)
  have d: "claimed_by default_threshold ex_inv_items ex_po_items 2 = Some 2"
    using ex_claims by simp
  note m = matched_row_status[OF a b c d, unfolded Let_def]
  have p: "po_price (item_rows (ex_doc ex_po_items) (ex_doc ex_inv_items) default_threshold ! 2) = PStr ''5.00''"
    using m by (simp add: ex_po_items_def dict_get_def)
  have i: "inv_price (item_rows (ex_doc ex_po_items) (ex_doc ex_inv_items) default_threshold ! 2) = PStr ''5.0''"
    using m by (simp add: ex_inv_items_def dict_get_def)
  have s: "status (item_rows (ex_doc ex_po_items) (ex_doc ex_inv_items) default_threshold ! 2) = ''Mismatch''"
    using m p i by blast
  from a b c d p i s show ?thesis by (intro conjI)
qed


text \<open>
  C4, as the code has it. When the best score of a PO item against the invoice items not yet
  claimed is below the threshold, the row of the PO item has its four invoice-side fields
  empty, the PO item claims no invoice item, and the score of the row is that best score
  rounded to two decimals: it is 0.0 when no unclaimed invoice item scores above 0, and need
  not be otherwise. The status is Mismatch whenever the quantity, the unit price or the
  total of the PO item has a non-empty string form.
\<close>

theorem unmatched_po_row:
  assumes "po_items = items_of po_struct" and "inv_items = items_of inv_struct"
    and "k < length po_items" and "best_score_at t inv_items po_items k < t"
  shows "(let r = item_rows po_struct inv_struct t ! k; p = po_items ! k
     in inv_value r = [] \<and> inv_qty r = PStr [] \<and> inv_price r = PStr [] \<and> inv_total r = PStr []
      \<and> match_score r = py_round2 (best_score_at t inv_items po_items k)
      \<and> ((\<forall>j<length inv_items. Some j \<notin> used_before t inv_items po_items k
              \<longrightarrow> score_of p (inv_items ! j) = 0) \<longrightarrow> match_score r = 0)
      \<and> (py_str (po_qty r) \<noteq> [] \<or> py_str (po_price r) \<noteq> [] \<or> py_str (po_total r) \<noteq> []
            \<longrightarrow> status r = ''Mismatch'')
      \<and> claimed_by t inv_items po_items k = None
      \<and> used_before t inv_items po_items (Suc k) = used_before t inv_items po_items k)"
proof -
  have c: "claimed_by t inv_items po_items k = None"
    using assms(4) by (rule claimed_by_below)
  have r: "item_rows po_struct inv_struct t ! k
      = po_row (po_items ! k) None (best_score_at t inv_items po_items k)"
    using assms(1-3) c by (simp add: item_rows_nth)
  have z: "(\<forall>j<length inv_items. Some j \<notin> used_before t inv_items po_items k
              \<longrightarrow> score_of (po_items ! k) (inv_items ! j) = 0)
       \<Longrightarrow> py_round2 (best_score_at t inv_items po_items k) = 0"
    by (simp add: best_score_at_zero py_round2_0)
  show ?thesis
    unfolding Let_def r po_row_fields
    using po_row_status[of "po_items ! k" None "best_score_at t inv_items po_items k"] c z
      used_before_below[OF assms(3,4)]
    by (auto simp: inv_get_def)
qed

theorem unmatched_po_row_witness:
  "ex_po_items = items_of (ex_doc ex_po_items) \<and> ex_inv_items = items_of (ex_doc ex_inv_items)
   \<and> 1 < length ex_po_items
   \<and> best_score_at default_threshold ex_inv_items ex_po_items 1 < default_threshold
   \<and> inv_value (item_rows (ex_doc ex_po_items) (ex_doc ex_inv_items) default_threshold ! 1) = []
   \<and> match_score (item_rows (ex_doc ex_po_items) (ex_doc ex_inv_items) default_threshold ! 1)
       = py_round2 (to_double (2 / 7))
   \<and> status (item_rows (ex_doc ex_po_items) (ex_doc ex_inv_items) default_threshold ! 1) = ''Mismatch''
   \<and> claimed_by default_threshold ex_inv_items ex_po_items 1 = None"
proof -
  have a: "ex_po_items = items_of (ex_doc ex_po_items)" by (simp add: items_of_ex_doc)
  have b: "ex_inv_items = items_of (ex_doc ex_inv_items)" by (simp add: items_of_ex_doc)
  have c: "1 < length ex_po_items" by (simp add: ex_po_items_def)
  have bs: "best_score_at default_threshold ex_inv_items ex_po_items 1 = to_double (2 / 7)"
    using ex_best_scores by simp
  have lt: "to_double (2 / 7) < default_threshold" by code_simp
  have d: "best_score_at default_threshold ex_inv_items ex_po_items 1 < default_threshold"
    using bs lt by simp
  note m = unmatched_po_row[OF a b c d, unfolded Let_def]
  have q: "py_str (po_qty (item_rows (ex_doc ex_po_items) (ex_doc ex_inv_items) default_threshold ! 1)) \<noteq> []"
    by code_simp
  from a b c d m q bs show ?thesis by simp
qed


text \<open>
  The claim as stated gives such a row the score 0.0. PO item 1 of the example (Steel Rod) has
  the best score 2/7 against the unclaimed invoice items, below the threshold 0.7, and its
  row carries the score 0.29.
\<close>

theorem unmatched_po_row_score_counterexample:
  "best_score_at default_threshold ex_inv_items ex_po_items 1 < default_threshold
   \<and> match_score (item_rows (ex_doc ex_po_items) (ex_doc ex_inv_items) default_threshold ! 1)
       = to_double (29 / 100)
   \<and> to_double (29 / 100) \<noteq> 0"
  by code_simp


text \<open>
  A PO item without quantity, unit price and total that finds no match: on both sides the
  three values read as the empty string, and the row's status is Match.
\<close>

lemma unmatched_po_row_without_numbers:
  "map (\<lambda>r. (field r, po_value r, inv_value r, status r))
     (item_rows (ex_doc [bare_item ''Steel Rod'']) (ex_doc []) default_threshold)
   = [(''Item'', ''Steel Rod'', [], ''Match'')]"
  by code_simp


text \<open>
  C5. The item rows are the rows of the PO items, one per PO item and in the order of the PO
  items, followed by one row for every invoice item that no PO item claimed, in the order
  of the invoice items. A row of the second kind has the field \<open>Item (Unmatched Invoice)\<close>,
  the status Mismatch and the score 0.0.
\<close>

theorem unclaimed_invoice_items_last:
  assumes "po_items = items_of po_struct" and "inv_items = items_of inv_struct"
  shows "item_rows po_struct inv_struct t
     = map (\<lambda>k. po_row (po_items ! k)
                 (map_option (nth inv_items) (claimed_by t inv_items po_items k))
                 (best_score_at t inv_items po_items k)) [0..<length po_items]
       @ map (\<lambda>j. unmatched_row (inv_items ! j))
           (filter (\<lambda>j. \<forall>k<length po_items. claimed_by t inv_items po_items k \<noteq> Some j)
              [0..<length inv_items])
   \<and> (\<forall>p m s. field (po_row p m s) = ''Item'' \<and> po_value (po_row p m s) = dict_get (description p) [])
   \<and> (\<forall>inv_it. field (unmatched_row inv_it) = ''Item (Unmatched Invoice)''
         \<and> inv_value (unmatched_row inv_it) = dict_get (description inv_it) []
         \<and> status (unmatched_row inv_it) = ''Mismatch''
         \<and> match_score (unmatched_row inv_it) = 0)"
  unfolding assms item_rows_eq po_rows_eq unclaimed_never_claimed
  by (simp add: po_row_def unmatched_row_def Let_def)

theorem unclaimed_invoice_items_last_witness:
  "ex_po_items = items_of (ex_doc ex_po_items) \<and> ex_inv_items = items_of (ex_doc ex_inv_items)
   \<and> item_rows (ex_doc ex_po_items) (ex_doc ex_inv_items) default_threshold
     = map (\<lambda>k. po_row (ex_po_items ! k)
                 (map_option (nth ex_inv_items) (claimed_by default_threshold ex_inv_items ex_po_items k))
                 (best_score_at default_threshold ex_inv_items ex_po_items k)) [0..<length ex_po_items]
       @ map (\<lambda>j. unmatched_row (ex_inv_items ! j))
           (filter (\<lambda>j. \<forall>k<length ex_po_items. claimed_by default_threshold ex_inv_items ex_po_items k \<noteq> Some j)
              [0..<length ex_inv_items])
   \<and> map (\<lambda>r. (field r, po_value r, inv_value r, status r))
        (item_rows (ex_doc ex_po_items) (ex_doc ex_inv_items) default_threshold)
     = [(''Item'', ''Bolt 10mm'', ''Bolt-10mm '', ''Match''),
        (''Item'', ''Steel Rod'', [], ''Mismatch''),
        (''Item'', ''Hex Nut M8'', ''HEX NUT m8'', ''Mismatch''),
        (''Item (Unmatched Invoice)'', [], ''Shipping Fee'', ''Mismatch'')]"
proof -
  have a: "ex_po_items = items_of (ex_doc ex_po_items)" by (simp add: items_of_ex_doc)
  have b: "ex_inv_items = items_of (ex_doc ex_inv_items)" by (simp add: items_of_ex_doc)
  note c = unclaimed_invoice_items_last[OF a b, of default_threshold, THEN conjunct1]
  have d: "map (\<lambda>r. (field r, po_value r, inv_value r, status r))
        (item_rows (ex_doc ex_po_items) (ex_doc ex_inv_items) default_threshold)
     = [(''Item'', ''Bolt 10mm'', ''Bolt-10mm '', ''Match''),
        (''Item'', ''Steel Rod'', [], ''Mismatch''),
        (''Item'', ''Hex Nut M8'', ''HEX NUT m8'', ''Mismatch''),
        (''Item (Unmatched Invoice)'', [], ''Shipping Fee'', ''Mismatch'')]"
    by code_simp
  from a b c d show ?thesis by (intro conjI)
qed


text \<open>
  C6, as the code has it. Let the threshold be raised from \<open>t1\<close> to \<open>t2\<close>. A PO item that
  meets the same claimed invoice items in both runs and is matched at \<open>t2\<close> is matched at
  \<open>t1\<close>, to the same invoice item. Over a whole run, a PO item that is unmatched at \<open>t1\<close>
  and matched at \<open>t2\<close> comes after a PO item that is matched at \<open>t1\<close> and unmatched at
  \<open>t2\<close>: the first PO item whose outcome changes loses its match, and the first PO item of
  the list never gains one.
\<close>

theorem threshold_first_difference:
  assumes "t1 \<le> t2" and "k < length po_items"
  shows "(Option.these (used_before t1 inv_items po_items k)
            = Option.these (used_before t2 inv_items po_items k)
          \<longrightarrow> (\<forall>j. claimed_by t2 inv_items po_items k = Some j
                  \<longrightarrow> claimed_by t1 inv_items po_items k = Some j))
   \<and> (claimed_by t1 inv_items po_items k = None \<and> claimed_by t2 inv_items po_items k \<noteq> None
        \<longrightarrow> (\<exists>k'<k. claimed_by t1 inv_items po_items k' \<noteq> None
                   \<and> claimed_by t2 inv_items po_items k' = None))
   \<and> (k = 0 \<and> claimed_by t1 inv_items po_items k = None \<longrightarrow> claimed_by t2 inv_items po_items k = None)"
proof -
  have first: "Option.these (used_before t1 inv_items po_items k)
            = Option.these (used_before t2 inv_items po_items k)
          \<longrightarrow> (\<forall>j. claimed_by t2 inv_items po_items k = Some j
                  \<longrightarrow> claimed_by t1 inv_items po_items k = Some j)"
  proof (intro impI allI)
    fix j
    assume "Option.these (used_before t1 inv_items po_items k)
            = Option.these (used_before t2 inv_items po_items k)"
      and "claimed_by t2 inv_items po_items k = Some j"
    then show "claimed_by t1 inv_items po_items k = Some j"
      by (rule claimed_by_mono_same_used[OF assms(1)])
  qed
  have second: "claimed_by t1 inv_items po_items k = None \<and> claimed_by t2 inv_items po_items k \<noteq> None
        \<longrightarrow> (\<exists>k'<k. claimed_by t1 inv_items po_items k' \<noteq> None
                   \<and> claimed_by t2 inv_items po_items k' = None)"
  proof (intro impI, elim conjE, rule ccontr)
    assume none: "claimed_by t1 inv_items po_items k = None"
      and some: "claimed_by t2 inv_items po_items k \<noteq> None"
      and no: "\<not> (\<exists>k'<k. claimed_by t1 inv_items po_items k' \<noteq> None
                   \<and> claimed_by t2 inv_items po_items k' = None)"
    have keep: "\<forall>k'<k. claimed_by t1 inv_items po_items k' \<noteq> None
        \<longrightarrow> claimed_by t2 inv_items po_items k' \<noteq> None"
    proof (intro allI impI)
      fix k' assume "k' < k" "claimed_by t1 inv_items po_items k' \<noteq> None"
      with no show "claimed_by t2 inv_items po_items k' \<noteq> None" by auto
    qed
    have "k \<le> length po_items" using assms(2) by simp
    from same_claims_until[OF assms(1) this keep]
    have same: "Option.these (used_before t1 inv_items po_items k)
        = Option.these (used_before t2 inv_items po_items k)" .
    from some obtain j where j: "claimed_by t2 inv_items po_items k = Some j" by auto
    from claimed_by_mono_same_used[OF assms(1) same j] none show False by simp
  qed
  have third: "k = 0 \<and> claimed_by t1 inv_items po_items k = None
      \<longrightarrow> claimed_by t2 inv_items po_items k = None"
  proof (intro impI, elim conjE, rule ccontr)
    assume k0: "k = 0" and none: "claimed_by t1 inv_items po_items k = None"
      and some: "claimed_by t2 inv_items po_items k \<noteq> None"
    from none some have "claimed_by t1 inv_items po_items k = None
        \<and> claimed_by t2 inv_items po_items k \<noteq> None" by (intro conjI)
    with second have "\<exists>k'<k. claimed_by t1 inv_items po_items k' \<noteq> None
                   \<and> claimed_by t2 inv_items po_items k' = None"
      by (rule mp)
    then obtain k' where "k' < k" by (elim exE conjE)
    with k0 show False by simp
  qed
  show ?thesis by (intro conjI first second third)
qed

lemma bolt_claims:
  "slider_threshold 70 \<le> slider_threshold 90"
  "claimed_by (slider_threshold 70) bolt_inv_items bolt_po_items 1 = None"
  "claimed_by (slider_threshold 90) bolt_inv_items bolt_po_items 1 = Some 0"
  by code_simp+

theorem threshold_first_difference_witness:
  "slider_threshold 70 \<le> slider_threshold 90 \<and> 1 < length bolt_po_items
   \<and> claimed_by (slider_threshold 70) bolt_inv_items bolt_po_items 1 = None
   \<and> claimed_by (slider_threshold 90) bolt_inv_items bolt_po_items 1 = Some 0
   \<and> (\<exists>k'<1. claimed_by (slider_threshold 70) bolt_inv_items bolt_po_items k' \<noteq> None
             \<and> claimed_by (slider_threshold 90) bolt_inv_items bolt_po_items k' = None)"
proof -
  have k: "1 < length bolt_po_items" by (simp add: bolt_po_items_def)
  note w = threshold_first_difference[OF bolt_claims(1) k, of bolt_inv_items,
      THEN conjunct2, THEN conjunct1]
  have "\<exists>k'<1. claimed_by (slider_threshold 70) bolt_inv_items bolt_po_items k' \<noteq> None
             \<and> claimed_by (slider_threshold 90) bolt_inv_items bolt_po_items k' = None"
    using w bolt_claims(2,3) by simp
  with bolt_claims k show ?thesis by (intro conjI)
qed


text \<open>
  The claim as stated excludes that a PO item unmatched at \<open>t1\<close> is matched at \<open>t2\<close>. PO items
  Bolt 10mm and Bolt 12mm against the single invoice item Bolt 12mm: at 0.70 the first PO
  item claims it (score 0.89) and the second is unmatched; at 0.90 the first is unmatched
  and the second, which was unmatched, claims it (score 1.0).
\<close>

theorem raised_threshold_counterexample:
  "slider_threshold 70 \<le> slider_threshold 90
   \<and> map (claimed_by (slider_threshold 70) bolt_inv_items bolt_po_items) [0, 1] = [Some 0, None]
   \<and> map (claimed_by (slider_threshold 90) bolt_inv_items bolt_po_items) [0, 1] = [None, Some 0]
   \<and> map (\<lambda>r. (po_value r, inv_value r, status r))
        (item_rows (ex_doc bolt_po_items) (ex_doc bolt_inv_items) (slider_threshold 70))
      = [(''Bolt 10mm'', ''Bolt 12mm'', ''Match''), (''Bolt 12mm'', [], ''Mismatch'')]
   \<and> map (\<lambda>r. (po_value r, inv_value r, status r))
        (item_rows (ex_doc bolt_po_items) (ex_doc bolt_inv_items) (slider_threshold 90))
      = [(''Bolt 10mm'', [], ''Mismatch''), (''Bolt 12mm'', ''Bolt 12mm'', ''Match'')]"
  by code_simp


text \<open>
  C7, as the code has it. Take a PO item, and two invoice lists whose unclaimed items, when
  the PO item is reached, are the same up to their order: for instance the first PO item
  and any permutation of the invoice list. Then the best score is the same in both runs,
  the PO item is matched in one run exactly when it is matched in the other, and the two
  invoice items it claims have the same score. The order decides only which of the
  top-scoring items is claimed.
\<close>

theorem permuted_invoice_same_best_score:
  assumes "mset (map (nth inv_items) (unclaimed inv_items (used_before t inv_items po_items k)))
         = mset (map (nth inv_items') (unclaimed inv_items' (used_before t inv_items' po_items k)))"
  shows "best_score_at t inv_items po_items k = best_score_at t inv_items' po_items k
    \<and> (claimed_by t inv_items po_items k = None \<longleftrightarrow> claimed_by t inv_items' po_items k = None)
    \<and> (\<forall>j j'. claimed_by t inv_items po_items k = Some j \<and> claimed_by t inv_items' po_items k = Some j'
          \<longrightarrow> score_of (po_items ! k) (inv_items ! j) = score_of (po_items ! k) (inv_items' ! j'))"
proof -
  obtain s m i where b: "best_of inv_items (po_items ! k) (used_before t inv_items po_items k) = (s, m, i)"
    by (cases "best_of inv_items (po_items ! k) (used_before t inv_items po_items k)")
  obtain s' m' i' where b': "best_of inv_items' (po_items ! k) (used_before t inv_items' po_items k) = (s', m', i')"
    by (cases "best_of inv_items' (po_items ! k) (used_before t inv_items' po_items k)")
  have "set (map (nth inv_items) (unclaimed inv_items (used_before t inv_items po_items k)))
       = set (map (nth inv_items') (unclaimed inv_items' (used_before t inv_items' po_items k)))"
    using arg_cong[OF assms, of set_mset] by simp
  from best_score_unique[OF b b' this]
  have 1: "best_score_at t inv_items po_items k = best_score_at t inv_items' po_items k"
    by (simp add: best_score_at_def b b')
  have 2: "claimed_by t inv_items po_items k = None \<longleftrightarrow> claimed_by t inv_items' po_items k = None"
    by (simp add: claimed_by_None_iff 1)
  have 3: "\<forall>j j'. claimed_by t inv_items po_items k = Some j \<and> claimed_by t inv_items' po_items k = Some j'
          \<longrightarrow> score_of (po_items ! k) (inv_items ! j) = score_of (po_items ! k) (inv_items' ! j')"
  proof (intro allI impI, elim conjE)
    fix j j'
    assume j: "claimed_by t inv_items po_items k = Some j"
      and j': "claimed_by t inv_items' po_items k = Some j'"
    have "best_score_at t inv_items po_items k = score_of (po_items ! k) (inv_items ! j)"
      using claimed_by_Some[OF j] by simp
    moreover have "best_score_at t inv_items' po_items k = score_of (po_items ! k) (inv_items' ! j')"
      using claimed_by_Some[OF j'] by simp
    ultimately show "score_of (po_items ! k) (inv_items ! j) = score_of (po_items ! k) (inv_items' ! j')"
      using 1 by simp
  qed
  show ?thesis by (intro conjI 1 2 3)
qed

theorem permuted_invoice_same_best_score_witness:
  "mset (map (nth tie_inv_items)
          (unclaimed tie_inv_items (used_before default_threshold tie_inv_items tie_po_items 0)))
     = mset (map (nth tie_inv_items_permuted)
          (unclaimed tie_inv_items_permuted
             (used_before default_threshold tie_inv_items_permuted tie_po_items 0)))
   \<and> best_score_at default_threshold tie_inv_items tie_po_items 0
       = best_score_at default_threshold tie_inv_items_permuted tie_po_items 0
   \<and> claimed_by default_threshold tie_inv_items tie_po_items 0 = Some 0
   \<and> claimed_by default_threshold tie_inv_items_permuted tie_po_items 0 = Some 0
   \<and> tie_inv_items ! 0 = ex_item ''Bolt M8'' \<and> tie_inv_items_permuted ! 0 = ex_item ''A4 Bolt''
   \<and> score_of (tie_po_items ! 0) (tie_inv_items ! 0)
       = score_of (tie_po_items ! 0) (tie_inv_items_permuted ! 0)"
proof -
  have h: "mset (map (nth tie_inv_items)
          (unclaimed tie_inv_items (used_before default_threshold tie_inv_items tie_po_items 0)))
     = mset (map (nth tie_inv_items_permuted)
          (unclaimed tie_inv_items_permuted
             (used_before default_threshold tie_inv_items_permuted tie_po_items 0)))"
    by (simp add: used_before_0 unclaimed_empty tie_permutation)
  note w = permuted_invoice_same_best_score[OF h]
  have c: "claimed_by default_threshold tie_inv_items tie_po_items 0 = Some 0"
    "claimed_by default_threshold tie_inv_items_permuted tie_po_items 0 = Some 0"
    using tie_claims by simp_all
  have i: "tie_inv_items ! 0 = ex_item ''Bolt M8''" "tie_inv_items_permuted ! 0 = ex_item ''A4 Bolt''"
    by (simp_all add: tie_inv_items_def tie_inv_items_permuted_def)
  have s: "score_of (tie_po_items ! 0) (tie_inv_items ! 0)
       = score_of (tie_po_items ! 0) (tie_inv_items_permuted ! 0)"
    using w c by blast
  from h w[THEN conjunct1] c i s show ?thesis by (intro conjI)
qed


text \<open>
  The claim as stated is about every PO item of a permuted run. PO items Bolt and Bolt M8,
  invoice items Bolt M8 and A4 Bolt, threshold 0.7: Bolt scores 0.73 against both and claims
  the first. In the given order it claims Bolt M8, and the PO item Bolt M8 finds only A4
  Bolt (0.57) and is unmatched; with the invoice list reversed it claims A4 Bolt, and the PO
  item Bolt M8 is matched.
\<close>

theorem permuted_invoice_counterexample:
  "mset tie_inv_items_permuted = mset tie_inv_items
   \<and> claimed_by default_threshold tie_inv_items tie_po_items 1 = None
   \<and> claimed_by default_threshold tie_inv_items_permuted tie_po_items 1 = Some 1
   \<and> map (\<lambda>r. (po_value r, inv_value r))
        (item_rows (ex_doc tie_po_items) (ex_doc tie_inv_items) default_threshold)
      = [(''Bolt'', ''Bolt M8''), (''Bolt M8'', []), ([], ''A4 Bolt'')]
   \<and> map (\<lambda>r. (po_value r, inv_value r))
        (item_rows (ex_doc tie_po_items) (ex_doc tie_inv_items_permuted) default_threshold)
      = [(''Bolt'', ''A4 Bolt''), (''Bolt M8'', ''Bolt M8'')]"
proof -
  have c: "claimed_by default_threshold tie_inv_items tie_po_items 1 = None"
    "claimed_by default_threshold tie_inv_items_permuted tie_po_items 1 = Some 1"
    using tie_claims by simp_all
  have r: "map (\<lambda>r. (po_value r, inv_value r))
        (item_rows (ex_doc tie_po_items) (ex_doc tie_inv_items) default_threshold)
      = [(''Bolt'', ''Bolt M8''), (''Bolt M8'', []), ([], ''A4 Bolt'')]"
    by code_simp
  have r': "map (\<lambda>r. (po_value r, inv_value r))
        (item_rows (ex_doc tie_po_items) (ex_doc tie_inv_items_permuted) default_threshold)
      = [(''Bolt'', ''A4 Bolt''), (''Bolt M8'', ''Bolt M8'')]"
    by code_simp
  from tie_permutation c r r' show ?thesis by (intro conjI)
qed


text \<open>
  C8. Running the comparator twice on the same two records and the same threshold gives
  the same report, and no run leaves anything behind that a later run reads. The runs are
  runs over the state: the second run starts in the state that the first run left, with
  its rows, its header checks, its \<open>inv_used\<close> and its last best match still in place.
  Its report is the report of the first run. A run changes neither of the two records nor
  a module-level variable. Its report is the value of \<open>compare_structures\<close> on the two
  records and the threshold, so it depends on nothing else: two states that hold the same
  two records give the same report, whatever the variables of the function hold in them.
  (The statement needs the three resets of the source: without \<open>rows = []\<close>,
  \<open>inv_used = set()\<close> or \<open>best_score = 0.0\<close> the second run would read what the first
  one wrote.)
\<close>

theorem comparator_runs_agree:
  "fst (compare_structures_st t (snd (compare_structures_st t s))) = fst (compare_structures_st t s)
   \<and> same_outside s (snd (compare_structures_st t s))
   \<and> fst (compare_structures_st t s) = compare_structures (o_po_struct s) (o_inv_struct s) t
   \<and> (o_po_struct s' = o_po_struct s \<and> o_inv_struct s' = o_inv_struct s
        \<longrightarrow> fst (compare_structures_st t s') = fst (compare_structures_st t s))"
proof -
  have frame: "same_outside s (snd (compare_structures_st t s))"
    by (rule compare_structures_st_frame)
  have again: "fst (compare_structures_st t (snd (compare_structures_st t s)))
      = fst (compare_structures_st t s)"
    using frame by (simp add: compare_structures_st_report same_outside_def)
  show ?thesis
    using frame again by (simp add: compare_structures_st_report)
qed

theorem comparator_runs_agree_witness:
  "fst (compare_structures_st default_threshold ex_used_state)
     = fst (compare_structures_st default_threshold ex_fresh_state)
   \<and> fst (compare_structures_st default_threshold
            (snd (compare_structures_st default_threshold ex_used_state)))
       = fst (compare_structures_st default_threshold ex_used_state)
   \<and> o_po_struct (snd (compare_structures_st default_threshold ex_used_state)) = ex_doc ex_po_items
   \<and> o_inv_struct (snd (compare_structures_st default_threshold ex_used_state)) = ex_doc ex_inv_items
   \<and> map inv_value (snd (fst (compare_structures_st default_threshold ex_used_state)))
       = [''Bolt-10mm '', [], ''HEX NUT m8'', ''Shipping Fee'']"
proof -
  note w = comparator_runs_agree[where t = default_threshold and s = ex_fresh_state
      and s' = ex_used_state]
  note u = comparator_runs_agree[where t = default_threshold and s = ex_used_state
      and s' = ex_used_state]
  have a: "fst (compare_structures_st default_threshold ex_used_state)
     = fst (compare_structures_st default_threshold ex_fresh_state)"
    using w ex_states_records by simp
  have b: "fst (compare_structures_st default_threshold
            (snd (compare_structures_st default_threshold ex_used_state)))
       = fst (compare_structures_st default_threshold ex_used_state)"
    using u by simp
  have c: "o_po_struct (snd (compare_structures_st default_threshold ex_used_state)) = ex_doc ex_po_items
   \<and> o_inv_struct (snd (compare_structures_st default_threshold ex_used_state)) = ex_doc ex_inv_items"
    using u[THEN conjunct2, THEN conjunct1] ex_states_records by (simp add: same_outside_def)
  have d: "map inv_value (snd (fst (compare_structures_st default_threshold ex_used_state)))
       = [''Bolt-10mm '', [], ''HEX NUT m8'', ''Shipping Fee'']"
    using u[THEN conjunct2, THEN conjunct2, THEN conjunct1] ex_states_records ex_report_inv_values
    by simp
  show ?thesis using a b c d by simp
qed


text \<open>
  C9. Whatever the input text and the document-type label, when no API credential is
  configured (\<open>GEMINI_KEY\<close> is \<open>None\<close> or the empty string) the extraction returns no
  structured record and the configuration error, and hands no prompt to the language
  model's client: no network call is issued.
\<close>

theorem no_credential_no_call:
  "gemini_key = None \<or> gemini_key = Some [] \<Longrightarrow>
   call_gemini_for_structure gemini_key generate_content json_loads text doc_type
     = ((None, Some ''No API key configured.''), [])"
  by (simp add: call_gemini_for_structure_def)

theorem no_credential_no_call_witness:
  "call_gemini_for_structure None (\<lambda>prompt. Inr ''{}'') (\<lambda>s. Loaded s) ''Invoice INV-7'' ''Invoice''
     = ((None, Some ''No API key configured.''), [])
   \<and> call_gemini_for_structure (Some []) (\<lambda>prompt. Inr ''{}'') (\<lambda>s. Loaded s) ''Invoice INV-7'' ''Invoice''
     = ((None, Some ''No API key configured.''), [])"
  using no_credential_no_call[of None "\<lambda>prompt. Inr ''{}''" "\<lambda>s. Loaded s" "''Invoice INV-7''" "''Invoice''"]
    no_credential_no_call[of "Some []" "\<lambda>prompt. Inr ''{}''" "\<lambda>s. Loaded s" "''Invoice INV-7''" "''Invoice''"]
  by simp


text \<open>
  C10. No invoice item is claimed by two PO items, and a claimed index is an index of the
  invoice list. Every invoice item is shown by exactly one item row. The rows are, in
  order, the rows of the PO items (field \<open>Item\<close>) and the rows of the last loop (field
  \<open>Item (Unmatched Invoice)\<close>); \<open>row_sources\<close> gives for each row the index of the invoice
  item it was built from. A row with a source shows that invoice item: its invoice-side
  description, quantity, unit price and total are those of the item. A row without a
  source shows no invoice item. Every index of the invoice list is the source of exactly
  one row: of the row of the one PO item that claimed it, or else of one row of the last
  loop.
\<close>

theorem invoice_item_in_one_row:
  assumes "po_items = items_of po_struct" and "inv_items = items_of inv_struct"
  shows "(\<forall>k<length po_items. \<forall>k'<length po_items. \<forall>j.
            claimed_by t inv_items po_items k = Some j \<and> claimed_by t inv_items po_items k' = Some j
            \<longrightarrow> k = k')
   \<and> (\<forall>k<length po_items. \<forall>j. claimed_by t inv_items po_items k = Some j \<longrightarrow> j < length inv_items)
   \<and> (\<forall>j<length inv_items.
         count_list (map (claimed_by t inv_items po_items) [0..<length po_items]) (Some j)
         + count_list
             (filter (\<lambda>j. \<forall>k<length po_items. claimed_by t inv_items po_items k \<noteq> Some j)
                [0..<length inv_items]) j
         = 1)
   \<and> item_rows po_struct inv_struct t
       = map (\<lambda>k. po_row (po_items ! k)
                   (map_option (nth inv_items) (claimed_by t inv_items po_items k))
                   (best_score_at t inv_items po_items k)) [0..<length po_items]
         @ map (\<lambda>j. unmatched_row (inv_items ! j))
             (filter (\<lambda>j. \<forall>k<length po_items. claimed_by t inv_items po_items k \<noteq> Some j)
                [0..<length inv_items])
   \<and> row_sources t inv_items po_items
       = map (claimed_by t inv_items po_items) [0..<length po_items]
         @ map Some
             (filter (\<lambda>j. \<forall>k<length po_items. claimed_by t inv_items po_items k \<noteq> Some j)
                [0..<length inv_items])
   \<and> length (item_rows po_struct inv_struct t) = length (row_sources t inv_items po_items)
   \<and> (\<forall>n<length (item_rows po_struct inv_struct t).
         field (item_rows po_struct inv_struct t ! n)
           = (if n < length po_items then ''Item'' else ''Item (Unmatched Invoice)'')
         \<and> (case row_sources t inv_items po_items ! n of
               None \<Rightarrow> carries_no_item (item_rows po_struct inv_struct t ! n)
             | Some j \<Rightarrow> j < length inv_items
                         \<and> carries_item (item_rows po_struct inv_struct t ! n) (inv_items ! j)))
   \<and> (\<forall>j<length inv_items. count_list (row_sources t inv_items po_items) (Some j) = 1)"
proof (intro conjI)
  show "\<forall>k<length po_items. \<forall>k'<length po_items. \<forall>j.
            claimed_by t inv_items po_items k = Some j \<and> claimed_by t inv_items po_items k' = Some j
            \<longrightarrow> k = k'"
    using claimed_by_inj by blast
  show "\<forall>k<length po_items. \<forall>j. claimed_by t inv_items po_items k = Some j \<longrightarrow> j < length inv_items"
    using claimed_by_Some by blast
  show "\<forall>j<length inv_items.
         count_list (map (claimed_by t inv_items po_items) [0..<length po_items]) (Some j)
         + count_list
             (filter (\<lambda>j. \<forall>k<length po_items. claimed_by t inv_items po_items k \<noteq> Some j)
                [0..<length inv_items]) j
         = 1"
    by (auto simp: count_claimed count_filter_upt)
  show "item_rows po_struct inv_struct t
       = map (\<lambda>k. po_row (po_items ! k)
                   (map_option (nth inv_items) (claimed_by t inv_items po_items k))
                   (best_score_at t inv_items po_items k)) [0..<length po_items]
         @ map (\<lambda>j. unmatched_row (inv_items ! j))
             (filter (\<lambda>j. \<forall>k<length po_items. claimed_by t inv_items po_items k \<noteq> Some j)
                [0..<length inv_items])"
    unfolding assms item_rows_eq po_rows_eq unclaimed_never_claimed by simp
  show "row_sources t inv_items po_items
       = map (claimed_by t inv_items po_items) [0..<length po_items]
         @ map Some
             (filter (\<lambda>j. \<forall>k<length po_items. claimed_by t inv_items po_items k \<noteq> Some j)
                [0..<length inv_items])"
    unfolding row_sources_def unclaimed_never_claimed by simp
  show "length (item_rows po_struct inv_struct t) = length (row_sources t inv_items po_items)"
    unfolding assms by (simp only: length_item_rows length_row_sources)
  show "\<forall>n<length (item_rows po_struct inv_struct t).
         field (item_rows po_struct inv_struct t ! n)
           = (if n < length po_items then ''Item'' else ''Item (Unmatched Invoice)'')
         \<and> (case row_sources t inv_items po_items ! n of
               None \<Rightarrow> carries_no_item (item_rows po_struct inv_struct t ! n)
             | Some j \<Rightarrow> j < length inv_items
                         \<and> carries_item (item_rows po_struct inv_struct t ! n) (inv_items ! j))"
    unfolding assms using item_rows_field row_shows_source by (intro allI impI conjI)
  show "\<forall>j<length inv_items. count_list (row_sources t inv_items po_items) (Some j) = 1"
    using count_row_sources by (intro allI impI)
qed

theorem invoice_item_in_one_row_witness:
  "ex_po_items = items_of (ex_doc ex_po_items) \<and> ex_inv_items = items_of (ex_doc ex_inv_items)
   \<and> row_sources default_threshold ex_inv_items ex_po_items = [Some 1, None, Some 2, Some 0]
   \<and> length (item_rows (ex_doc ex_po_items) (ex_doc ex_inv_items) default_threshold) = 4
   \<and> carries_item (item_rows (ex_doc ex_po_items) (ex_doc ex_inv_items) default_threshold ! 0)
        (ex_inv_items ! 1)
   \<and> carries_no_item (item_rows (ex_doc ex_po_items) (ex_doc ex_inv_items) default_threshold ! 1)
   \<and> carries_item (item_rows (ex_doc ex_po_items) (ex_doc ex_inv_items) default_threshold ! 2)
        (ex_inv_items ! 2)
   \<and> carries_item (item_rows (ex_doc ex_po_items) (ex_doc ex_inv_items) default_threshold ! 3)
        (ex_inv_items ! 0)
   \<and> field (item_rows (ex_doc ex_po_items) (ex_doc ex_inv_items) default_threshold ! 3)
        = ''Item (Unmatched Invoice)''
   \<and> count_list (row_sources default_threshold ex_inv_items ex_po_items) (Some 0) = 1
   \<and> count_list (row_sources default_threshold ex_inv_items ex_po_items) (Some 1) = 1
   \<and> count_list (row_sources default_threshold ex_inv_items ex_po_items) (Some 2) = 1"
proof -
  have a: "ex_po_items = items_of (ex_doc ex_po_items)" by (simp add: items_of_ex_doc)
  have b: "ex_inv_items = items_of (ex_doc ex_inv_items)" by (simp add: items_of_ex_doc)
  note w = invoice_item_in_one_row[OF a b, of default_threshold]
  note w_len = w[THEN conjunct2, THEN conjunct2, THEN conjunct2, THEN conjunct2, THEN conjunct2,
      THEN conjunct1]
  note w_rows = w[THEN conjunct2, THEN conjunct2, THEN conjunct2, THEN conjunct2, THEN conjunct2,
      THEN conjunct2, THEN conjunct1, rule_format]
  note w_count = w[THEN conjunct2, THEN conjunct2, THEN conjunct2, THEN conjunct2, THEN conjunct2,
      THEN conjunct2, THEN conjunct2, rule_format]
  have len: "length (item_rows (ex_doc ex_po_items) (ex_doc ex_inv_items) default_threshold) = 4"
    using w_len by (simp add: ex_row_sources)
  have lp: "length ex_po_items = 3" and li: "length ex_inv_items = 3"
    by (simp_all add: ex_po_items_def ex_inv_items_def)
  have r0: "carries_item (item_rows (ex_doc ex_po_items) (ex_doc ex_inv_items) default_threshold ! 0)
        (ex_inv_items ! 1)"
    using w_rows[of 0] by (simp add: len ex_row_sources)
  have r1: "carries_no_item (item_rows (ex_doc ex_po_items) (ex_doc ex_inv_items) default_threshold ! 1)"
    using w_rows[of 1] by (simp add: len ex_row_sources)
  have r2: "carries_item (item_rows (ex_doc ex_po_items) (ex_doc ex_inv_items) default_threshold ! 2)
        (ex_inv_items ! 2)"
    using w_rows[of 2] by (simp add: len ex_row_sources)
  have r3: "carries_item (item_rows (ex_doc ex_po_items) (ex_doc ex_inv_items) default_threshold ! 3)
        (ex_inv_items ! 0)"
    "field (item_rows (ex_doc ex_po_items) (ex_doc ex_inv_items) default_threshold ! 3)
        = ''Item (Unmatched Invoice)''"
    using w_rows[of 3] by (simp_all add: len ex_row_sources lp)
  have c: "count_list (row_sources default_threshold ex_inv_items ex_po_items) (Some 0) = 1"
    "count_list (row_sources default_threshold ex_inv_items ex_po_items) (Some 1) = 1"
    "count_list (row_sources default_threshold ex_inv_items ex_po_items) (Some 2) = 1"
    using w_count[of 0] w_count[of 1] w_count[of 2] by (simp_all add: li)
  from a b ex_row_sources len r0 r1 r2 r3 c show ?thesis by (intro conjI)
qed

end
